theory Spec2Isabelle
  imports Main "HOL-Library.Word" "HOL-Library.Code_Target_Nat"
begin

unbundle bit_operations_syntax

section \<open>Bytes, exceptions and the struct primitives\<close>

text \<open>
  The tool under study is \<^verbatim>\<open>tools/fix_nif_winding.py\<close>.  Its buffer is a Python
  \<^verbatim>\<open>bytearray\<close>: a mutable sequence of 8-bit values, modelled as a list of 8-bit words.
  Python integers are unbounded; every position, count and decoded field of the tool is
  non-negative and is a \<open>nat\<close>, except the object count, which is read as a signed
  32-bit value and is an \<open>int\<close>.  A decoded Python \<^verbatim>\<open>str\<close> is a list of code points.
\<close>

type_synonym byte = "8 word"
type_synonym pystr = "nat list"

text \<open>The exceptions the tool can raise; none of them is caught outside \<^verbatim>\<open>read_string\<close>.\<close>

datatype error = StructError | IndexError | UnicodeDecodeError

text \<open>An ASCII literal of the source as a list of code points, and as bytes.\<close>

definition lit :: "string \<Rightarrow> pystr" where
  "lit cs = map of_char cs"


text \<open>Little-endian unsigned decoding and encoding (\<^verbatim>\<open><H\<close> is 2 bytes, \<^verbatim>\<open><I\<close> is 4).\<close>

primrec le_decode :: "byte list \<Rightarrow> nat" where
  "le_decode [] = 0"
| "le_decode (b # bs) = unat b + 256 * le_decode bs"

primrec le_encode :: "nat \<Rightarrow> nat \<Rightarrow> byte list" where
  "le_encode 0 v = []"
| "le_encode (Suc n) v = of_nat (v mod 256) # le_encode n (v div 256)"

text \<open>
  \<^verbatim>\<open>struct.unpack_from(fmt, buf, offset)[0]\<close> for one unsigned field of \<open>w\<close> bytes:
  \<^verbatim>\<open>struct.error\<close> unless the whole field lies inside the buffer.
\<close>

definition unpack_from :: "nat \<Rightarrow> byte list \<Rightarrow> nat \<Rightarrow> error + nat" where
  "unpack_from w d off =
     (if off + w \<le> length d then Inr (le_decode (take w (drop off d))) else Inl StructError)"

text \<open>\<^verbatim>\<open>struct.unpack_from('<HHH' / '<III', buf, offset)\<close>: three fields of \<open>w\<close> bytes.\<close>

definition unpack_from3 :: "nat \<Rightarrow> byte list \<Rightarrow> nat \<Rightarrow> error + (nat \<times> nat \<times> nat)" where
  "unpack_from3 w d off =
     (if off + 3 * w \<le> length d
      then Inr (le_decode (take w (drop off d)),
                le_decode (take w (drop (off + w) d)),
                le_decode (take w (drop (off + 2 * w) d)))
      else Inl StructError)"

text \<open>
  \<^verbatim>\<open>struct.pack_into('<HHH' / '<III', buf, offset, x, y, z)\<close>: overwrites \<open>3 * w\<close> bytes
  in place; \<^verbatim>\<open>struct.error\<close> when the fields do not fit the buffer or a value does not
  fit its field.
\<close>

definition pack_into3 :: "nat \<Rightarrow> byte list \<Rightarrow> nat \<Rightarrow> nat \<times> nat \<times> nat \<Rightarrow> error + byte list" where
  "pack_into3 w d off v =
     (case v of (x, y, z) \<Rightarrow>
        if off + 3 * w \<le> length d \<and> x < 2 ^ (8 * w) \<and> y < 2 ^ (8 * w) \<and> z < 2 ^ (8 * w)
        then Inr (take off d @ le_encode w x @ le_encode w y @ le_encode w z @ drop (off + 3 * w) d)
        else Inl StructError)"

text \<open>\<^verbatim>\<open>struct.pack('<I', v)\<close>.\<close>

definition pack_uint :: "nat \<Rightarrow> error + byte list" where
  "pack_uint v = (if v < 2 ^ 32 then Inr (le_encode 4 v) else Inl StructError)"

text \<open>
  \<^verbatim>\<open>bytearray.find(sub, start, end)\<close> for non-negative \<open>start\<close> and \<open>end\<close>: the lowest
  position \<open>i \<ge> start\<close> at which \<open>sub\<close> occurs entirely below \<open>min end (len buf)\<close>;
  \<open>None\<close> stands for the result \<^verbatim>\<open>-1\<close>.
\<close>

primrec scan_for :: "byte list \<Rightarrow> byte list \<Rightarrow> nat \<Rightarrow> nat \<Rightarrow> nat option" where
  "scan_for sub d i 0 = None"
| "scan_for sub d i (Suc n) =
     (if take (length sub) (drop i d) = sub then Some i else scan_for sub d (Suc i) n)"

definition bytes_find :: "byte list \<Rightarrow> byte list \<Rightarrow> nat \<Rightarrow> nat \<Rightarrow> nat option" where
  "bytes_find sub d start end_pos =
     (let e = min end_pos (length d)
      in if start + length sub \<le> e then scan_for sub d start (Suc (e - (start + length sub)))
         else None)"

text \<open>\<^verbatim>\<open>xs[i]\<close> on a Python list with a non-negative index: \<^verbatim>\<open>IndexError\<close> out of range.\<close>

definition list_get :: "'a list \<Rightarrow> nat \<Rightarrow> error + 'a" where
  "list_get xs i = (if i < length xs then Inr (xs ! i) else Inl IndexError)"

text \<open>\<^verbatim>\<open>xs.index(v)\<close>: the first position of \<open>v\<close>; \<open>None\<close> stands for \<^verbatim>\<open>ValueError\<close>.\<close>

primrec list_index :: "'a list \<Rightarrow> 'a \<Rightarrow> nat option" where
  "list_index [] v = None"
| "list_index (x # xs) v =
     (if x = v then Some 0 else map_option Suc (list_index xs v))"

text \<open>\<^verbatim>\<open>s.startswith(p)\<close> and \<^verbatim>\<open>p in s\<close> on strings.\<close>

definition startswith :: "pystr \<Rightarrow> pystr \<Rightarrow> bool" where
  "startswith s p = (take (length p) s = p)"

primrec contains :: "pystr \<Rightarrow> pystr \<Rightarrow> bool" where
  "contains [] p = (p = [])"
| "contains (c # cs) p = (startswith (c # cs) p \<or> contains cs p)"

text \<open>\<^verbatim>\<open>s.rstrip('\x00')\<close>.\<close>

definition rstrip_nul :: "pystr \<Rightarrow> pystr" where
  "rstrip_nul s = rev (dropWhile (\<lambda>c. c = 0) (rev s))"

text \<open>
  \<^verbatim>\<open>bytes.decode('utf-8')\<close> in strict mode: well-formed sequences only (no overlong
  forms, no surrogates, nothing above U+10FFFF); \<open>None\<close> stands for \<^verbatim>\<open>UnicodeDecodeError\<close>.
\<close>

definition cont :: "byte \<Rightarrow> bool" where
  "cont b = (128 \<le> unat b \<and> unat b \<le> 191)"

fun decode_utf8 :: "byte list \<Rightarrow> pystr option" where
  "decode_utf8 [] = Some []"
| "decode_utf8 (b # bs) =
     (let n = unat b in
      if n < 128 then map_option (Cons n) (decode_utf8 bs)
      else if 194 \<le> n \<and> n \<le> 223 then
        (case bs of
           b1 # r \<Rightarrow>
             if cont b1
             then map_option (Cons ((n - 192) * 64 + (unat b1 - 128))) (decode_utf8 r)
             else None
         | _ \<Rightarrow> None)
      else if 224 \<le> n \<and> n \<le> 239 then
        (case bs of
           b1 # b2 # r \<Rightarrow>
             if cont b1 \<and> cont b2 \<and> (n = 224 \<longrightarrow> 160 \<le> unat b1) \<and> (n = 237 \<longrightarrow> unat b1 \<le> 159)
             then map_option
                    (Cons ((n - 224) * 4096 + (unat b1 - 128) * 64 + (unat b2 - 128)))
                    (decode_utf8 r)
             else None
         | _ \<Rightarrow> None)
      else if 240 \<le> n \<and> n \<le> 244 then
        (case bs of
           b1 # b2 # b3 # r \<Rightarrow>
             if cont b1 \<and> cont b2 \<and> cont b3 \<and> (n = 240 \<longrightarrow> 144 \<le> unat b1)
                \<and> (n = 244 \<longrightarrow> unat b1 \<le> 143)
             then map_option
                    (Cons ((n - 240) * 262144 + (unat b1 - 128) * 4096 + (unat b2 - 128) * 64
                           + (unat b3 - 128)))
                    (decode_utf8 r)
             else None
         | _ \<Rightarrow> None)
      else None)"

text \<open>\<^verbatim>\<open>bytes.decode('latin-1')\<close> never fails; \<^verbatim>\<open>bytes.decode('ascii')\<close> fails on a byte above 127.\<close>

definition decode_latin1 :: "byte list \<Rightarrow> pystr" where
  "decode_latin1 bs = map unat bs"

definition decode_ascii :: "byte list \<Rightarrow> error + pystr" where
  "decode_ascii bs =
     (if list_all (\<lambda>b. unat b < 128) bs then Inr (map unat bs) else Inl UnicodeDecodeError)"

text \<open>\<^verbatim>\<open>nif_version\<close>: the packed version number.\<close>

definition nif_version :: "nat \<Rightarrow> nat \<Rightarrow> nat \<Rightarrow> nat \<Rightarrow> nat" where
  "nif_version major minor patch internal =
     push_bit 24 major OR push_bit 16 minor OR push_bit 8 patch OR internal"

section \<open>The parser object and its readers\<close>

text \<open>
  \<^verbatim>\<open>NifParser.__init__\<close>: the fields of the parser.  The attributes
  \<^verbatim>\<open>is_little_endian\<close> and \<^verbatim>\<open>user_ver_2\<close> are written once and never read; they are
  left out.
\<close>

record NifParser =
  data :: "byte list"
  pos :: nat
  file_ver :: nat
  user_ver :: nat
  num_objects :: int
  type_names :: "pystr list"
  object_types :: "pystr list"
  object_sizes :: "nat list"
  object_offsets :: "nat list"
  string_table :: "pystr list"
  modified :: bool

definition NifParser_init :: "byte list \<Rightarrow> NifParser" where
  "NifParser_init d =
     \<lparr>data = d, pos = 0, file_ver = 0, user_ver = 0, num_objects = 0, type_names = [],
      object_types = [], object_sizes = [], object_offsets = [], string_table = [],
      modified = False\<rparr>"

text \<open>\<^verbatim>\<open>read_byte\<close>: indexing the bytearray raises \<^verbatim>\<open>IndexError\<close> at the end.\<close>

definition read_byte :: "NifParser \<Rightarrow> error + (nat \<times> NifParser)" where
  "read_byte s =
     (if pos s < length (data s) then Inr (unat (data s ! pos s), s\<lparr>pos := pos s + 1\<rparr>)
      else Inl IndexError)"

definition read_ushort :: "NifParser \<Rightarrow> error + (nat \<times> NifParser)" where
  "read_ushort s =
     (case unpack_from 2 (data s) (pos s) of
        Inl e \<Rightarrow> Inl e
      | Inr v \<Rightarrow> Inr (v, s\<lparr>pos := pos s + 2\<rparr>))"

definition read_uint :: "NifParser \<Rightarrow> error + (nat \<times> NifParser)" where
  "read_uint s =
     (case unpack_from 4 (data s) (pos s) of
        Inl e \<Rightarrow> Inl e
      | Inr v \<Rightarrow> Inr (v, s\<lparr>pos := pos s + 4\<rparr>))"

text \<open>\<^verbatim>\<open>read_int\<close>: the same four bytes read as two's complement.\<close>

definition read_int :: "NifParser \<Rightarrow> error + (int \<times> NifParser)" where
  "read_int s =
     (case unpack_from 4 (data s) (pos s) of
        Inl e \<Rightarrow> Inl e
      | Inr v \<Rightarrow>
          Inr (if v < 2 ^ 31 then int v else int v - 2 ^ 32, s\<lparr>pos := pos s + 4\<rparr>))"

text \<open>
  \<^verbatim>\<open>read_string\<close>: a slice never raises (it is cut at the end of the buffer), the
  cursor advances by the requested length all the same, and a failed UTF-8 decoding
  falls back to Latin-1.
\<close>

definition read_string :: "nat \<Rightarrow> NifParser \<Rightarrow> pystr \<times> NifParser" where
  "read_string len s =
     (let bs = take len (drop (pos s) (data s));
          s1 = s\<lparr>pos := pos s + len\<rparr>
      in case decode_utf8 bs of
           Some cs \<Rightarrow> (rstrip_nul cs, s1)
         | None \<Rightarrow> (rstrip_nul (decode_latin1 bs), s1))"

section \<open>Header and tables\<close>

text \<open>
  \<^verbatim>\<open>parse_header\<close>.  The result \<open>Inr (False, _)\<close> is the source's \<^verbatim>\<open>return False\<close>;
  \<open>Inl\<close> is an exception raised by a read or by the ASCII decoding of the first line.
\<close>

definition parse_header :: "NifParser \<Rightarrow> error + (bool \<times> NifParser)" where
  "parse_header s =
     (case bytes_find [10] (data s) 0 (length (data s)) of
        None \<Rightarrow> Inr (False, s)
      | Some header_end \<Rightarrow>
          (case decode_ascii (take header_end (data s)) of
             Inl e \<Rightarrow> Inl e
           | Inr header_line \<Rightarrow>
               if \<not> contains header_line (lit ''Gamebryo File Format'') then Inr (False, s)
               else
                 (case read_uint (s\<lparr>pos := header_end + 1\<rparr>) of
                    Inl e \<Rightarrow> Inl e
                  | Inr (fv, s1) \<Rightarrow>
                      (case (if fv \<ge> nif_version 20 0 0 3
                             then (case read_byte (s1\<lparr>file_ver := fv\<rparr>) of
                                     Inl e \<Rightarrow> Inl e
                                   | Inr (b, s2) \<Rightarrow> Inr s2)
                             else Inr (s1\<lparr>file_ver := fv\<rparr>)) of
                         Inl e \<Rightarrow> Inl e
                       | Inr s2 \<Rightarrow>
                           (case (if file_ver s2 \<ge> nif_version 10 0 1 8
                                  then (case read_uint s2 of
                                          Inl e \<Rightarrow> Inl e
                                        | Inr (uv, s3) \<Rightarrow> Inr (s3\<lparr>user_ver := uv\<rparr>))
                                  else Inr s2) of
                              Inl e \<Rightarrow> Inl e
                            | Inr s3 \<Rightarrow>
                                (case read_int s3 of
                                   Inl e \<Rightarrow> Inl e
                                 | Inr (n, s4) \<Rightarrow>
                                     if n \<le> 0 then Inr (False, s4\<lparr>num_objects := n\<rparr>)
                                     else if user_ver s4 = nif_version 0 0 0 12
                                             \<and> file_ver s4 = nif_version 20 2 0 7
                                     then (case read_uint (s4\<lparr>num_objects := n\<rparr>) of
                                             Inl e \<Rightarrow> Inl e
                                           | Inr (uv2, s5) \<Rightarrow> Inr (True, s5))
                                     else Inr (True, s4\<lparr>num_objects := n\<rparr>)))))))"

text \<open>\<^verbatim>\<open>parse_metadata\<close>: the cursor jumps over the block without any bounds check.\<close>

definition parse_metadata :: "NifParser \<Rightarrow> error + (bool \<times> NifParser)" where
  "parse_metadata s =
     (if file_ver s \<ge> nif_version 20 9 0 1
      then (case read_uint s of
              Inl e \<Rightarrow> Inl e
            | Inr (meta_size, s1) \<Rightarrow>
                Inr (True, if meta_size > 0 then s1\<lparr>pos := pos s1 + meta_size\<rparr> else s1))
      else Inr (True, s))"

text \<open>The two loops of \<^verbatim>\<open>parse_type_names_and_indices\<close>.\<close>

primrec read_type_names :: "nat \<Rightarrow> NifParser \<Rightarrow> error + (pystr list \<times> NifParser)" where
  "read_type_names 0 s = Inr ([], s)"
| "read_type_names (Suc n) s =
     (case read_uint s of
        Inl e \<Rightarrow> Inl e
      | Inr (str_len, s1) \<Rightarrow>
          (case read_string str_len s1 of (type_name, s2) \<Rightarrow>
             (case read_type_names n s2 of
                Inl e \<Rightarrow> Inl e
              | Inr (names, s3) \<Rightarrow> Inr (type_name # names, s3))))"

primrec read_object_types :: "nat \<Rightarrow> NifParser \<Rightarrow> error + (pystr list \<times> NifParser)" where
  "read_object_types 0 s = Inr ([], s)"
| "read_object_types (Suc n) s =
     (case read_ushort s of
        Inl e \<Rightarrow> Inl e
      | Inr (type_idx0, s1) \<Rightarrow>
          (let type_idx = (if file_ver s1 \<ge> nif_version 20 2 0 5
                           then nat (int type_idx0 AND NOT 32768) else type_idx0)
           in case list_get (type_names s1) type_idx of
                Inl e \<Rightarrow> Inl e
              | Inr t \<Rightarrow>
                  (case read_object_types n s1 of
                     Inl e \<Rightarrow> Inl e
                   | Inr (ts, s2) \<Rightarrow> Inr (t # ts, s2))))"

definition parse_type_names_and_indices :: "NifParser \<Rightarrow> error + (bool \<times> NifParser)" where
  "parse_type_names_and_indices s =
     (case read_ushort s of
        Inl e \<Rightarrow> Inl e
      | Inr (num_types, s1) \<Rightarrow>
          (case read_type_names num_types s1 of
             Inl e \<Rightarrow> Inl e
           | Inr (names, s2) \<Rightarrow>
               (case read_object_types (nat (num_objects s2)) (s2\<lparr>type_names := names\<rparr>) of
                  Inl e \<Rightarrow> Inl e
                | Inr (ts, s3) \<Rightarrow> Inr (True, s3\<lparr>object_types := ts\<rparr>))))"

text \<open>\<^verbatim>\<open>for i in range(n): xs.append(self.read_uint())\<close>.\<close>

primrec read_uints :: "nat \<Rightarrow> NifParser \<Rightarrow> error + (nat list \<times> NifParser)" where
  "read_uints 0 s = Inr ([], s)"
| "read_uints (Suc n) s =
     (case read_uint s of
        Inl e \<Rightarrow> Inl e
      | Inr (v, s1) \<Rightarrow>
          (case read_uints n s1 of
             Inl e \<Rightarrow> Inl e
           | Inr (vs, s2) \<Rightarrow> Inr (v # vs, s2)))"

text \<open>\<^verbatim>\<open>parse_object_sizes\<close>: below 20.2.0.5 the size list stays as initialised, empty.\<close>

definition parse_object_sizes :: "NifParser \<Rightarrow> error + (bool \<times> NifParser)" where
  "parse_object_sizes s =
     (if file_ver s \<ge> nif_version 20 2 0 5
      then (case read_uints (nat (num_objects s)) s of
              Inl e \<Rightarrow> Inl e
            | Inr (sizes, s1) \<Rightarrow> Inr (True, s1\<lparr>object_sizes := sizes\<rparr>))
      else Inr (True, s))"

primrec read_strings :: "nat \<Rightarrow> NifParser \<Rightarrow> error + (pystr list \<times> NifParser)" where
  "read_strings 0 s = Inr ([], s)"
| "read_strings (Suc n) s =
     (case read_uint s of
        Inl e \<Rightarrow> Inl e
      | Inr (str_len, s1) \<Rightarrow>
          (case (if str_len > 0 then read_string str_len s1 else ([], s1)) of (str, s2) \<Rightarrow>
             (case read_strings n s2 of
                Inl e \<Rightarrow> Inl e
              | Inr (strs, s3) \<Rightarrow> Inr (str # strs, s3))))"

definition parse_string_table :: "NifParser \<Rightarrow> error + (bool \<times> NifParser)" where
  "parse_string_table s =
     (if file_ver s \<ge> nif_version 20 1 0 1
      then (case read_uint s of
              Inl e \<Rightarrow> Inl e
            | Inr (num_strings, s1) \<Rightarrow>
                (case read_uint s1 of
                   Inl e \<Rightarrow> Inl e
                 | Inr (max_string_size, s2) \<Rightarrow>
                     (case read_strings num_strings s2 of
                        Inl e \<Rightarrow> Inl e
                      | Inr (strs, s3) \<Rightarrow> Inr (True, s3\<lparr>string_table := strs\<rparr>))))
      else Inr (True, s))"

definition parse_object_groups :: "NifParser \<Rightarrow> error + (bool \<times> NifParser)" where
  "parse_object_groups s =
     (if file_ver s \<ge> nif_version 5 0 0 6
      then (case read_uint s of
              Inl e \<Rightarrow> Inl e
            | Inr (num_groups, s1) \<Rightarrow>
                (case read_uints num_groups s1 of
                   Inl e \<Rightarrow> Inl e
                 | Inr (groups, s2) \<Rightarrow> Inr (True, s2)))
      else Inr (True, s))"

text \<open>
  The offset loop written inline in \<^verbatim>\<open>parse_and_fix\<close>:
  \<^verbatim>\<open>for i in range(num_objects): offsets.append(current_pos); current_pos += object_sizes[i]\<close>.
  Indexing the size list raises \<^verbatim>\<open>IndexError\<close> when it is shorter than the object count.
\<close>

primrec offsets_loop :: "nat list \<Rightarrow> nat \<Rightarrow> nat \<Rightarrow> nat \<Rightarrow> error + nat list" where
  "offsets_loop sizes i current_pos 0 = Inr []"
| "offsets_loop sizes i current_pos (Suc n) =
     (case list_get sizes i of
        Inl e \<Rightarrow> Inl e
      | Inr sz \<Rightarrow>
          (case offsets_loop sizes (Suc i) (current_pos + sz) n of
             Inl e \<Rightarrow> Inl e
           | Inr offs \<Rightarrow> Inr (current_pos # offs)))"

definition build_object_offsets :: "NifParser \<Rightarrow> error + NifParser" where
  "build_object_offsets s =
     (case offsets_loop (object_sizes s) 0 (pos s) (nat (num_objects s)) of
        Inl e \<Rightarrow> Inl e
      | Inr offs \<Rightarrow> Inr (s\<lparr>object_offsets := offs\<rparr>))"

section \<open>The mesh stream locator\<close>

text \<open>
  The innermost loop of \<^verbatim>\<open>find_index_streams_in_mesh\<close>:
  \<^verbatim>\<open>for e in range(num_elems)\<close>, which validates the element descriptors after a
  candidate count field.  The result is the flag \<^verbatim>\<open>valid\<close>.
\<close>

primrec validate_descs :: "NifParser \<Rightarrow> nat \<Rightarrow> nat \<Rightarrow> nat \<Rightarrow> nat \<Rightarrow> error + bool" where
  "validate_descs s end_pos elem_start e 0 = Inr True"
| "validate_descs s end_pos elem_start e (Suc n) =
     (let e_pos = elem_start + e * 8 in
      if e_pos + 8 > end_pos then Inr False
      else
        (case unpack_from 4 (data s) e_pos of
           Inl err \<Rightarrow> Inl err
         | Inr e_str \<Rightarrow>
             (case unpack_from 4 (data s) (e_pos + 4) of
                Inl err \<Rightarrow> Inl err
              | Inr e_idx \<Rightarrow>
                  if e_str \<ge> length (string_table s) \<or> e_idx \<ge> 10 then Inr False
                  else validate_descs s end_pos elem_start (Suc e) n)))"

text \<open>
  \<^verbatim>\<open>for link_offset in range(7, 50)\<close>: the first position before the count field whose
  value is an object id of a type starting with \<^verbatim>\<open>NiDataStream\<close>.  The source computes
  \<^verbatim>\<open>link_pos = num_pos - link_offset\<close> and leaves the loop when \<^verbatim>\<open>link_pos < start_pos\<close>;
  on naturals the test reads \<open>num_pos < start_pos + link_offset\<close>.
\<close>

primrec find_link :: "NifParser \<Rightarrow> nat \<Rightarrow> nat \<Rightarrow> nat \<Rightarrow> nat \<Rightarrow> error + nat option" where
  "find_link s start_pos num_pos link_offset 0 = Inr None"
| "find_link s start_pos num_pos link_offset (Suc n) =
     (if num_pos < start_pos + link_offset then Inr None
      else
        (case unpack_from 4 (data s) (num_pos - link_offset) of
           Inl err \<Rightarrow> Inl err
         | Inr link_id \<Rightarrow>
             if int link_id < num_objects s then
               (case list_get (object_types s) link_id of
                  Inl err \<Rightarrow> Inl err
                | Inr obj_type \<Rightarrow>
                    if startswith obj_type (lit ''NiDataStream'') then Inr (Some link_id)
                    else find_link s start_pos num_pos (Suc link_offset) n)
             else find_link s start_pos num_pos (Suc link_offset) n))"

text \<open>
  \<^verbatim>\<open>for back in range(4, 100, 4)\<close>: the backward search for the count field.  The result
  is the link id when \<^verbatim>\<open>found\<close> was set.
\<close>

primrec scan_back :: "NifParser \<Rightarrow> nat \<Rightarrow> nat \<Rightarrow> nat \<Rightarrow> nat \<Rightarrow> nat \<Rightarrow> error + nat option" where
  "scan_back s start_pos end_pos idx back 0 = Inr None"
| "scan_back s start_pos end_pos idx back (Suc n) =
     (if idx < start_pos + back then Inr None
      else
        (let num_pos = idx - back in
         case unpack_from 4 (data s) num_pos of
           Inl err \<Rightarrow> Inl err
         | Inr num_elems \<Rightarrow>
             if \<not> (1 \<le> num_elems \<and> num_elems \<le> 10)
             then scan_back s start_pos end_pos idx (back + 4) n
             else
               (case validate_descs s end_pos (num_pos + 4) 0 num_elems of
                  Inl err \<Rightarrow> Inl err
                | Inr valid \<Rightarrow>
                    if \<not> valid then scan_back s start_pos end_pos idx (back + 4) n
                    else
                      (case find_link s start_pos num_pos 7 43 of
                         Inl err \<Rightarrow> Inl err
                       | Inr (Some link_id) \<Rightarrow> Inr (Some link_id)
                       | Inr None \<Rightarrow> scan_back s start_pos end_pos idx (back + 4) n))))"

lemma scan_for_ge: "scan_for sub d i n = Some j \<Longrightarrow> i \<le> j"
  by (induction n arbitrary: i) (auto split: if_splits dest: Suc_leD)

lemma bytes_find_ge: "bytes_find sub d start end_pos = Some j \<Longrightarrow> start \<le> j"
  by (auto simp: bytes_find_def Let_def split: if_splits dest: scan_for_ge)

text \<open>
  The \<^verbatim>\<open>while search_pos < end_pos - 20\<close> loop; on naturals the test reads
  \<open>search_pos + 20 < end_pos\<close>.  Every path through the body sets
  \<^verbatim>\<open>search_pos = idx + 1\<close> with \<open>idx \<ge> search_pos\<close>, so the loop ends.
\<close>

function find_loop ::
  "NifParser \<Rightarrow> nat \<Rightarrow> nat \<Rightarrow> byte list \<Rightarrow> nat \<Rightarrow> (nat \<times> nat) list \<Rightarrow> error + (nat \<times> nat) list"
where
  "find_loop s start_pos end_pos index_pattern search_pos streams =
     (if search_pos + 20 < end_pos then
        (case bytes_find index_pattern (data s) search_pos end_pos of
           None \<Rightarrow> Inr streams
         | Some idx \<Rightarrow>
             (case unpack_from 4 (data s) (idx + 4) of
                Inl err \<Rightarrow> Inl err
              | Inr elem_idx_val \<Rightarrow>
                  if elem_idx_val \<ge> 10
                  then find_loop s start_pos end_pos index_pattern (idx + 1) streams
                  else
                    (case scan_back s start_pos end_pos idx 4 24 of
                       Inl err \<Rightarrow> Inl err
                     | Inr None \<Rightarrow>
                         find_loop s start_pos end_pos index_pattern (idx + 1) streams
                     | Inr (Some link_id) \<Rightarrow>
                         find_loop s start_pos end_pos index_pattern (idx + 1)
                           (streams @ [(link_id, elem_idx_val)]))))
      else Inr streams)"
  by pat_completeness auto
termination
  by (relation "measure (\<lambda>(s, start_pos, end_pos, index_pattern, search_pos, streams).
                           end_pos - search_pos)")
     (auto dest!: bytes_find_ge)

definition find_index_streams_in_mesh ::
  "NifParser \<Rightarrow> nat \<Rightarrow> nat \<Rightarrow> error + (nat \<times> nat) list" where
  "find_index_streams_in_mesh s mesh_idx index_str_idx =
     (case list_get (object_offsets s) mesh_idx of
        Inl err \<Rightarrow> Inl err
      | Inr start_pos \<Rightarrow>
          (case list_get (object_sizes s) mesh_idx of
             Inl err \<Rightarrow> Inl err
           | Inr sz \<Rightarrow>
               (case pack_uint index_str_idx of
                  Inl err \<Rightarrow> Inl err
                | Inr index_pattern \<Rightarrow>
                    find_loop s start_pos (start_pos + sz) index_pattern start_pos [])))"

section \<open>The stream patcher\<close>

text \<open>\<^verbatim>\<open>for r in range(num_regions): regions.append((read_uint(), read_uint()))\<close>.\<close>

primrec read_regions :: "nat \<Rightarrow> NifParser \<Rightarrow> error + ((nat \<times> nat) list \<times> NifParser)" where
  "read_regions 0 s = Inr ([], s)"
| "read_regions (Suc n) s =
     (case read_uint s of
        Inl err \<Rightarrow> Inl err
      | Inr (base_idx, s1) \<Rightarrow>
          (case read_uint s1 of
             Inl err \<Rightarrow> Inl err
           | Inr (count, s2) \<Rightarrow>
               (case read_regions n s2 of
                  Inl err \<Rightarrow> Inl err
                | Inr (rs, s3) \<Rightarrow> Inr ((base_idx, count) # rs, s3))))"

text \<open>
  \<^verbatim>\<open>for e in range(num_elements)\<close>: the pair carried along is
  \<^verbatim>\<open>(index_size, elem_stride)\<close>.  Only the first entry sets \<^verbatim>\<open>index_size\<close>: to its size
  field, and then to 4 when its type code is 10 or 11.
\<close>

primrec read_elements ::
  "nat \<Rightarrow> nat \<Rightarrow> nat \<times> nat \<Rightarrow> NifParser \<Rightarrow> error + ((nat \<times> nat) \<times> NifParser)" where
  "read_elements e 0 acc s = Inr (acc, s)"
| "read_elements e (Suc n) acc s =
     (case read_uint s of
        Inl err \<Rightarrow> Inl err
      | Inr (elem_data, s1) \<Rightarrow>
          (let elem_count = drop_bit 16 elem_data AND 255;
               elem_size = drop_bit 8 elem_data AND 255;
               elem_type = elem_data AND 255;
               index_size = (if e = 0 then (if elem_type \<in> {10, 11} then 4 else elem_size)
                             else fst acc)
           in read_elements (Suc e) n (index_size, snd acc + elem_count * elem_size) s1))"

text \<open>
  \<^verbatim>\<open>for t in range(num_triangles)\<close> for an index of \<open>w\<close> bytes (the source writes the
  loop twice, with 6 and \<^verbatim>\<open><HHH\<close> for \<open>w = 2\<close> and with 12 and \<^verbatim>\<open><III\<close> for \<open>w = 4\<close>):
  the loop is left at the first triangle that does not fit the buffer.
\<close>

primrec swap_triangles :: "nat \<Rightarrow> nat \<Rightarrow> nat \<Rightarrow> nat \<Rightarrow> byte list \<Rightarrow> error + byte list" where
  "swap_triangles w region_offset t 0 d = Inr d"
| "swap_triangles w region_offset t (Suc n) d =
     (let offset = region_offset + t * (3 * w) in
      if offset + 3 * w > length d then Inr d
      else
        (case unpack_from3 w d offset of
           Inl err \<Rightarrow> Inl err
         | Inr (a, b, c) \<Rightarrow>
             (case pack_into3 w d offset (a, c, b) of
                Inl err \<Rightarrow> Inl err
              | Inr d' \<Rightarrow> swap_triangles w region_offset (Suc t) n d')))"

text \<open>
  \<^verbatim>\<open>for region_idx, (base_idx, count) in enumerate(regions)\<close>: the pair carried along
  is \<^verbatim>\<open>(total_triangles, self.data)\<close>.  A region is patched only when \<^verbatim>\<open>index_size\<close> is 2
  or 4, and \<^verbatim>\<open>total_triangles\<close> grows by \<^verbatim>\<open>num_triangles\<close> whether or not the triangle
  loop was left early.
\<close>

primrec patch_regions ::
  "nat \<Rightarrow> nat \<Rightarrow> nat \<Rightarrow> (nat \<times> nat) list \<Rightarrow> nat \<times> byte list \<Rightarrow> error + (nat \<times> byte list)" where
  "patch_regions index_size elem_stride data_start [] acc = Inr acc"
| "patch_regions index_size elem_stride data_start (r # rs) acc =
     (case r of (base_idx, count) \<Rightarrow>
        if index_size = 2 \<or> index_size = 4 then
          if count mod 3 \<noteq> 0 then patch_regions index_size elem_stride data_start rs acc
          else
            (let num_triangles = count div 3;
                 region_offset = data_start + base_idx * elem_stride
             in case swap_triangles index_size region_offset 0 num_triangles (snd acc) of
                  Inl err \<Rightarrow> Inl err
                | Inr d' \<Rightarrow>
                    patch_regions index_size elem_stride data_start rs
                      (fst acc + num_triangles, d'))
        else patch_regions index_size elem_stride data_start rs acc)"

definition fix_datastream_winding :: "NifParser \<Rightarrow> nat \<Rightarrow> error + NifParser" where
  "fix_datastream_winding s stream_idx =
     (case list_get (object_offsets s) stream_idx of
        Inl err \<Rightarrow> Inl err
      | Inr off \<Rightarrow>
     (case read_uint (s\<lparr>pos := off\<rparr>) of
        Inl err \<Rightarrow> Inl err
      | Inr (stream_size, s1) \<Rightarrow>
     (case read_uint s1 of
        Inl err \<Rightarrow> Inl err
      | Inr (stream_clone, s2) \<Rightarrow>
     (case read_uint s2 of
        Inl err \<Rightarrow> Inl err
      | Inr (num_regions, s3) \<Rightarrow>
     (case read_regions num_regions s3 of
        Inl err \<Rightarrow> Inl err
      | Inr (regions, s4) \<Rightarrow>
     (case read_uint s4 of
        Inl err \<Rightarrow> Inl err
      | Inr (num_elements, s5) \<Rightarrow>
     (case read_elements 0 num_elements (2, 0) s5 of
        Inl err \<Rightarrow> Inl err
      | Inr ((index_size, elem_stride), s6) \<Rightarrow>
     (case patch_regions index_size elem_stride (pos s6) regions (0, data s6) of
        Inl err \<Rightarrow> Inl err
      | Inr (total_triangles, d') \<Rightarrow>
          Inr (if total_triangles > 0 then s6\<lparr>data := d', modified := True\<rparr>
               else s6\<lparr>data := d'\<rparr>)))))))))"

section \<open>The orchestrator\<close>

text \<open>
  \<^verbatim>\<open>for stream_id, elem_idx in streams\<close>.  The triple carried along is the set
  \<^verbatim>\<open>processed_streams\<close>, the lines \<^verbatim>\<open>Mesh i -> INDEX stream j\<close> printed so far (one is
  printed immediately before each call of the patcher) and the parser.
\<close>

primrec process_streams ::
  "nat \<Rightarrow> (nat \<times> nat) list \<Rightarrow> nat set \<times> (nat \<times> nat) list \<times> NifParser
   \<Rightarrow> error + (nat set \<times> (nat \<times> nat) list \<times> NifParser)" where
  "process_streams i [] acc = Inr acc"
| "process_streams i (x # xs) acc =
     (case acc of (processed_streams, printed, s) \<Rightarrow>
        if fst x \<in> processed_streams then process_streams i xs acc
        else
          (case fix_datastream_winding s (fst x) of
             Inl err \<Rightarrow> Inl err
           | Inr s' \<Rightarrow>
               process_streams i xs
                 (insert (fst x) processed_streams, printed @ [(i, fst x)], s')))"

text \<open>\<^verbatim>\<open>for i in range(self.num_objects)\<close> of \<^verbatim>\<open>process_all_meshes\<close>.\<close>

primrec meshes_loop ::
  "nat \<Rightarrow> nat \<Rightarrow> nat \<Rightarrow> nat set \<times> (nat \<times> nat) list \<times> NifParser
   \<Rightarrow> error + (nat set \<times> (nat \<times> nat) list \<times> NifParser)" where
  "meshes_loop index_str_idx i 0 acc = Inr acc"
| "meshes_loop index_str_idx i (Suc n) acc =
     (case acc of (processed_streams, printed, s) \<Rightarrow>
        (case list_get (object_types s) i of
           Inl err \<Rightarrow> Inl err
         | Inr t \<Rightarrow>
             if t \<noteq> lit ''NiMesh'' then meshes_loop index_str_idx (Suc i) n acc
             else
               (case find_index_streams_in_mesh s i index_str_idx of
                  Inl err \<Rightarrow> Inl err
                | Inr streams \<Rightarrow>
                    (case process_streams i streams acc of
                       Inl err \<Rightarrow> Inl err
                     | Inr acc' \<Rightarrow> meshes_loop index_str_idx (Suc i) n acc'))))"

text \<open>
  \<^verbatim>\<open>process_all_meshes\<close>: returns at once when \<^verbatim>\<open>"INDEX"\<close> is not in the string
  table.  The result holds the printed \<^verbatim>\<open>Mesh i -> INDEX stream j\<close> lines.
\<close>

definition process_all_meshes :: "NifParser \<Rightarrow> error + ((nat \<times> nat) list \<times> NifParser)" where
  "process_all_meshes s =
     (case list_index (string_table s) (lit ''INDEX'') of
        None \<Rightarrow> Inr ([], s)
      | Some index_str_idx \<Rightarrow>
          (case meshes_loop index_str_idx 0 (nat (num_objects s)) ({}, [], s) of
             Inl err \<Rightarrow> Inl err
           | Inr (processed_streams, printed, s') \<Rightarrow> Inr (printed, s')))"

text \<open>
  \<^verbatim>\<open>parse_and_fix\<close>.  Every parse step of the source returns \<^verbatim>\<open>True\<close> or raises, apart
  from \<^verbatim>\<open>parse_header\<close>; the tests of the other results are kept as they are written.
\<close>

definition parse_and_fix :: "NifParser \<Rightarrow> error + (bool \<times> NifParser)" where
  "parse_and_fix s0 =
     (case parse_header s0 of
        Inl err \<Rightarrow> Inl err
      | Inr (ok1, s1) \<Rightarrow> if \<not> ok1 then Inr (False, s1) else
     (case parse_metadata s1 of
        Inl err \<Rightarrow> Inl err
      | Inr (ok2, s2) \<Rightarrow> if \<not> ok2 then Inr (False, s2) else
     (case (if file_ver s2 \<ge> nif_version 5 0 0 1 then parse_type_names_and_indices s2
            else Inr (True, s2)) of
        Inl err \<Rightarrow> Inl err
      | Inr (ok3, s3) \<Rightarrow> if \<not> ok3 then Inr (False, s3) else
     (case parse_object_sizes s3 of
        Inl err \<Rightarrow> Inl err
      | Inr (ok4, s4) \<Rightarrow> if \<not> ok4 then Inr (False, s4) else
     (case parse_string_table s4 of
        Inl err \<Rightarrow> Inl err
      | Inr (ok5, s5) \<Rightarrow> if \<not> ok5 then Inr (False, s5) else
     (case parse_object_groups s5 of
        Inl err \<Rightarrow> Inl err
      | Inr (ok6, s6) \<Rightarrow> if \<not> ok6 then Inr (False, s6) else
     (case build_object_offsets s6 of
        Inl err \<Rightarrow> Inl err
      | Inr s7 \<Rightarrow>
     (case process_all_meshes s7 of
        Inl err \<Rightarrow> Inl err
      | Inr (printed, s8) \<Rightarrow> Inr (modified s8, s8)))))))))"

text \<open>
  \<^verbatim>\<open>fix_nif_file\<close> on the contents of the input file.  The second component of the
  result is what is written to the output path, if anything.  There is no
  \<^verbatim>\<open>try\<close> around the call of the parser: an exception leaves the function.
\<close>

definition fix_nif_file :: "byte list \<Rightarrow> error + (bool \<times> byte list option)" where
  "fix_nif_file file_bytes =
     (case parse_and_fix (NifParser_init file_bytes) of
        Inl err \<Rightarrow> Inl err
      | Inr (m, s) \<Rightarrow> if m then Inr (True, Some (data s)) else Inr (False, None))"


section \<open>The table steps on their own\<close>

text \<open>
  The six parse steps of \<^verbatim>\<open>parse_and_fix\<close>, up to the comment
  \<^verbatim>\<open># Build object offset table\<close>, as a function of their own: the result is the flag of
  the last step taken and the parser it left.  \<open>parse_and_fix_tables\<close> below shows that
  \<^verbatim>\<open>parse_and_fix\<close> is these steps followed by the offset loop and
  \<^verbatim>\<open>process_all_meshes\<close>.
\<close>

definition parse_tables :: "NifParser \<Rightarrow> error + (bool \<times> NifParser)" where
  "parse_tables s0 =
     (case parse_header s0 of
        Inl err \<Rightarrow> Inl err
      | Inr (ok1, s1) \<Rightarrow> if \<not> ok1 then Inr (False, s1) else
     (case parse_metadata s1 of
        Inl err \<Rightarrow> Inl err
      | Inr (ok2, s2) \<Rightarrow> if \<not> ok2 then Inr (False, s2) else
     (case (if file_ver s2 \<ge> nif_version 5 0 0 1 then parse_type_names_and_indices s2
            else Inr (True, s2)) of
        Inl err \<Rightarrow> Inl err
      | Inr (ok3, s3) \<Rightarrow> if \<not> ok3 then Inr (False, s3) else
     (case parse_object_sizes s3 of
        Inl err \<Rightarrow> Inl err
      | Inr (ok4, s4) \<Rightarrow> if \<not> ok4 then Inr (False, s4) else
     (case parse_string_table s4 of
        Inl err \<Rightarrow> Inl err
      | Inr (ok5, s5) \<Rightarrow> if \<not> ok5 then Inr (False, s5) else
     (case parse_object_groups s5 of
        Inl err \<Rightarrow> Inl err
      | Inr (ok6, s6) \<Rightarrow> Inr (ok6, s6)))))))"

section \<open>Auxiliary notions and example inputs\<close>

text \<open>
  The fields of the parser that the patcher never writes: everything apart from the
  cursor, the buffer and the flag \<^verbatim>\<open>modified\<close>.
\<close>

definition static_part :: "NifParser \<Rightarrow> NifParser" where
  "static_part s = s\<lparr>pos := 0, data := [], modified := False\<rparr>"

text \<open>
  What the triangle loop does to the bytes from its first triangle on, for \<open>n\<close> triangles
  of three \<open>w\<close>-byte indices: the second and the third index of each triangle change
  places, up to the first triangle that does not fit.  It describes the loop in the
  proofs; \<open>swap_triangles_tail\<close> relates it to \<open>swap_triangles\<close>.
\<close>

primrec swap_tail :: "nat \<Rightarrow> nat \<Rightarrow> byte list \<Rightarrow> byte list" where
  "swap_tail w 0 xs = xs"
| "swap_tail w (Suc n) xs =
     (if length xs < 3 * w then xs
      else take w xs @ take w (drop (2 * w) xs) @ take w (drop w xs)
           @ swap_tail w n (drop (3 * w) xs))"

text \<open>
  A file of version 20.6.0.0 with two objects: a \<^verbatim>\<open>NiMesh\<close> of 21 bytes at offset 103
  and a \<^verbatim>\<open>NiDataStream\<close> \<open>st\<close> at offset 124.  The header holds the line
  \<^verbatim>\<open>Gamebryo File Format\<close>, the version, the endian byte, the user version, the object
  count 2, the two type names, the type index of each object, the two object sizes, the
  string table \<^verbatim>\<open>["", "", "INDEX"]\<close> and an empty group list.  The mesh starts with the
  link to object 1 and holds, from its byte 7 on, one element descriptor that names
  string 2 (\<^verbatim>\<open>INDEX\<close>) with index 0.
\<close>

definition sample_header :: "nat \<Rightarrow> byte list" where
  "sample_header n =
     [71, 97, 109, 101, 98, 114, 121, 111, 32, 70, 105, 108, 101, 32, 70, 111, 114, 109, 97, 116, 10,
      0, 0, 6, 20, 1, 0, 0, 0, 0, 2, 0, 0, 0,
      2, 0, 6, 0, 0, 0, 78, 105, 77, 101, 115, 104,
      12, 0, 0, 0, 78, 105, 68, 97, 116, 97, 83, 116, 114, 101, 97, 109,
      0, 0, 1, 0,
      21, 0, 0, 0, of_nat n, 0, 0, 0,
      3, 0, 0, 0, 5, 0, 0, 0, 0, 0, 0, 0, 0, 0, 0, 0, 5, 0, 0, 0, 73, 78, 68, 69, 88,
      0, 0, 0, 0]"

definition sample_mesh :: "byte list" where
  "sample_mesh = [1, 0, 0, 0, 0, 0, 0, 1, 0, 0, 0, 2, 0, 0, 0, 0, 0, 0, 0, 0, 0]"

definition sample_file :: "byte list \<Rightarrow> byte list" where
  "sample_file st = sample_header (length st) @ sample_mesh @ st"

text \<open>The parser after the tables of such a file have been read and the offsets built.\<close>

definition sample_state :: "byte list \<Rightarrow> NifParser" where
  "sample_state st =
     \<lparr>data = sample_file st, pos = 103, file_ver = 335937536, user_ver = 0, num_objects = 2,
      type_names = [lit ''NiMesh'', lit ''NiDataStream''],
      object_types = [lit ''NiMesh'', lit ''NiDataStream''],
      object_sizes = [21, unat (of_nat (length st) :: byte)], object_offsets = [103, 124],
      string_table = [[], [], lit ''INDEX''], modified = False\<rparr>"

text \<open>
  Stream objects for that file, each a function of its payload.  The first three have
  the one region \<open>(0, 3)\<close> and one element of count 1 and type code 5, of size 2 in
  \<open>ok_stream\<close> and \<open>short_stream\<close> and of size 4 in \<open>wide_stream\<close>; \<open>short_stream\<close> ends
  after four bytes of payload.  \<open>overlap_stream\<close> has the regions \<open>(0, 3)\<close> and \<open>(1, 3)\<close>,
  \<open>odd_stream\<close> the regions \<open>(0, 4)\<close> and \<open>(0, 3)\<close>, both with one element of size 2.
\<close>

definition ok_stream :: "byte list \<Rightarrow> byte list" where
  "ok_stream payload =
     [6, 0, 0, 0, 0, 0, 0, 0, 1, 0, 0, 0, 0, 0, 0, 0, 3, 0, 0, 0, 1, 0, 0, 0, 5, 2, 1, 0]
     @ payload @ [0]"

definition wide_stream :: "byte list \<Rightarrow> byte list" where
  "wide_stream payload =
     [12, 0, 0, 0, 0, 0, 0, 0, 1, 0, 0, 0, 0, 0, 0, 0, 3, 0, 0, 0, 1, 0, 0, 0, 5, 4, 1, 0]
     @ payload @ [0]"



definition short_stream :: "byte list" where
  "short_stream =
     [6, 0, 0, 0, 0, 0, 0, 0, 1, 0, 0, 0, 0, 0, 0, 0, 3, 0, 0, 0, 1, 0, 0, 0, 5, 2, 1, 0,
      1, 0, 2, 0]"

text \<open>
  A file of version 20.6.0.0 with three \<^verbatim>\<open>NiNode\<close> objects of the declared sizes 10, 20
  and 15, the string table \<^verbatim>\<open>["Scene"]\<close> and 45 bytes of object data after the 85
  bytes of header.
\<close>

definition plain_header :: "byte list" where
  "plain_header =
     [71, 97, 109, 101, 98, 114, 121, 111, 32, 70, 105, 108, 101, 32, 70, 111, 114, 109, 97,
      116, 10, 0, 0, 6, 20, 1, 0, 0, 0, 0, 3, 0, 0, 0, 1, 0, 6, 0, 0, 0, 78, 105, 78, 111,
      100, 101, 0, 0, 0, 0, 0, 0, 10, 0, 0, 0, 20, 0, 0, 0, 15, 0, 0, 0, 1, 0, 0, 0, 5, 0,
      0, 0, 5, 0, 0, 0, 83, 99, 101, 110, 101, 0, 0, 0, 0]"

definition plain_file :: "byte list" where
  "plain_file = plain_header @ replicate 45 0"

definition plain_state :: NifParser where
  "plain_state =
     \<lparr>data = plain_file, pos = 85, file_ver = 335937536, user_ver = 0, num_objects = 3,
      type_names = [lit ''NiNode''],
      object_types = [lit ''NiNode'', lit ''NiNode'', lit ''NiNode''],
      object_sizes = [10, 20, 15], object_offsets = [],
      string_table = [lit ''Scene''], modified = False\<rparr>"

text \<open>
  The two objects of \<open>sample_file\<close> behind a header of version 20.2.0.4, which has no
  object sizes.
\<close>

definition old_header :: "byte list" where
  "old_header =
     [71, 97, 109, 101, 98, 114, 121, 111, 32, 70, 105, 108, 101, 32, 70, 111, 114, 109, 97,
      116, 10, 4, 0, 2, 20, 1, 0, 0, 0, 0, 2, 0, 0, 0, 2, 0, 6, 0, 0, 0, 78, 105, 77, 101,
      115, 104, 12, 0, 0, 0, 78, 105, 68, 97, 116, 97, 83, 116, 114, 101, 97, 109, 0, 0, 1,
      0, 3, 0, 0, 0, 5, 0, 0, 0, 0, 0, 0, 0, 0, 0, 0, 0, 5, 0, 0, 0, 73, 78, 68, 69, 88, 0,
      0, 0, 0]"

definition old_file :: "byte list" where
  "old_file = old_header @ sample_mesh @ ok_stream [1, 0, 2, 0, 3, 0]"



text \<open>
  A file whose object 0 is a \<^verbatim>\<open>NiDataStream\<close> at offset 109 and whose objects 1 and 2,
  at the offsets 144 and 165, are \<^verbatim>\<open>NiMesh\<close> objects that both link to object 0; and
  the parser after its tables, as a function of the buffer.
\<close>

definition twin_header :: "byte list" where
  "twin_header =
     [71, 97, 109, 101, 98, 114, 121, 111, 32, 70, 105, 108, 101, 32, 70, 111, 114, 109, 97,
      116, 10, 0, 0, 6, 20, 1, 0, 0, 0, 0, 3, 0, 0, 0, 2, 0, 6, 0, 0, 0, 78, 105, 77, 101,
      115, 104, 12, 0, 0, 0, 78, 105, 68, 97, 116, 97, 83, 116, 114, 101, 97, 109, 1, 0, 0,
      0, 0, 0, 35, 0, 0, 0, 21, 0, 0, 0, 21, 0, 0, 0, 3, 0, 0, 0, 5, 0, 0, 0, 0, 0, 0, 0, 0,
      0, 0, 0, 5, 0, 0, 0, 73, 78, 68, 69, 88, 0, 0, 0, 0]"

definition twin_mesh :: "byte list" where
  "twin_mesh = [0, 0, 0, 0, 0, 0, 0, 1, 0, 0, 0, 2, 0, 0, 0, 0, 0, 0, 0, 0, 0]"

definition twin_file :: "byte list \<Rightarrow> byte list" where
  "twin_file payload = twin_header @ ok_stream payload @ twin_mesh @ twin_mesh"

definition twin_state :: "byte list \<Rightarrow> NifParser" where
  "twin_state d =
     \<lparr>data = d, pos = 109, file_ver = 335937536, user_ver = 0, num_objects = 3,
      type_names = [lit ''NiMesh'', lit ''NiDataStream''],
      object_types = [lit ''NiDataStream'', lit ''NiMesh'', lit ''NiMesh''],
      object_sizes = [35, 21, 21], object_offsets = [109, 144, 165],
      string_table = [[], [], lit ''INDEX''], modified = False\<rparr>"

section \<open>Results of sequenced steps\<close>

text \<open>When a step followed by a continuation returns normally, so did the step.\<close>

lemma sum_bind_Inr:
  "((case x of Inl e \<Rightarrow> Inl e | Inr v \<Rightarrow> f v) = Inr r) = (\<exists>v. x = Inr v \<and> f v = Inr r)"
  by (cases x) auto

lemma sum_bind_Inl:
  "((case x of Inl e \<Rightarrow> Inl e | Inr v \<Rightarrow> f v) = Inl e') = (x = Inl e' \<or> (\<exists>v. x = Inr v \<and> f v = Inl e'))"
  by (cases x) auto

lemma if_eq_Inr:
  "((if c then a else b) = Inr r) = ((c \<and> a = Inr r) \<or> (\<not> c \<and> b = Inr r))"
  by auto

lemma option_case_eq_Inr:
  "((case x of None \<Rightarrow> a | Some v \<Rightarrow> f v) = Inr r)
     = ((x = None \<and> a = Inr r) \<or> (\<exists>v. x = Some v \<and> f v = Inr r))"
  by (cases x) auto

lemma stage_cases:
  obtains (err) e where "x = Inl e" | (stop) s where "x = Inr (False, s)"
    | (ok) s where "x = Inr (True, s)"
proof (cases x)
  case (Inl e)
  then show ?thesis by (rule err)
next
  case (Inr r)
  then show ?thesis using stop ok by (cases r) auto
qed

section \<open>What the readers leave unchanged\<close>

lemma read_byte_Inr: "read_byte s = Inr (v, s') \<Longrightarrow> s' = s\<lparr>pos := pos s + 1\<rparr>"
  by (auto simp: read_byte_def split: if_splits)

lemma read_ushort_Inr: "read_ushort s = Inr (v, s') \<Longrightarrow> s' = s\<lparr>pos := pos s + 2\<rparr>"
  by (auto simp: read_ushort_def split: sum.splits)

lemma read_uint_Inr: "read_uint s = Inr (v, s') \<Longrightarrow> s' = s\<lparr>pos := pos s + 4\<rparr>"
  by (auto simp: read_uint_def split: sum.splits)

lemma read_int_Inr: "read_int s = Inr (v, s') \<Longrightarrow> s' = s\<lparr>pos := pos s + 4\<rparr>"
  by (auto simp: read_int_def split: sum.splits)

lemma read_string_snd: "read_string len s = (v, s') \<Longrightarrow> s' = s\<lparr>pos := pos s + len\<rparr>"
  by (auto simp: read_string_def Let_def split: option.splits)

lemma read_uints_frame:
  "read_uints n s = Inr (vs, s') \<Longrightarrow> (\<exists>p. s' = s\<lparr>pos := p\<rparr>) \<and> length vs = n"
proof (induction n arbitrary: s vs s')
  case 0
  then show ?case by (auto intro: exI [of _ "pos s"])
next
  case (Suc n)
  from Suc.prems obtain v s1 vs' where
    r: "read_uint s = Inr (v, s1)" and rest: "read_uints n s1 = Inr (vs', s')" and vs: "vs = v # vs'"
    by (auto split: sum.splits)
  from Suc.IH [OF rest] obtain p where "s' = s1\<lparr>pos := p\<rparr>" and len: "length vs' = n"
    by blast
  with read_uint_Inr [OF r] have "s' = s\<lparr>pos := p\<rparr>" by simp
  with vs len show ?case by auto
qed

lemma read_type_names_frame:
  "read_type_names n s = Inr (vs, s') \<Longrightarrow> \<exists>p. s' = s\<lparr>pos := p\<rparr>"
proof (induction n arbitrary: s vs s')
  case 0
  then show ?case by (auto intro: exI [of _ "pos s"])
next
  case (Suc n)
  from Suc.prems obtain len s1 nm s2 vs' where
    r: "read_uint s = Inr (len, s1)" and st: "read_string len s1 = (nm, s2)"
    and rest: "read_type_names n s2 = Inr (vs', s')"
    by (auto split: sum.splits prod.splits)
  from Suc.IH [OF rest] obtain p where "s' = s2\<lparr>pos := p\<rparr>" by blast
  with read_uint_Inr [OF r] read_string_snd [OF st] have "s' = s\<lparr>pos := p\<rparr>" by simp
  then show ?case by blast
qed

lemma read_strings_frame:
  "read_strings n s = Inr (vs, s') \<Longrightarrow> \<exists>p. s' = s\<lparr>pos := p\<rparr>"
proof (induction n arbitrary: s vs s')
  case 0
  then show ?case by (auto intro: exI [of _ "pos s"])
next
  case (Suc n)
  from Suc.prems obtain len s1 nm s2 vs' where
    r: "read_uint s = Inr (len, s1)"
    and st: "(if len > 0 then read_string len s1 else ([], s1)) = (nm, s2)"
    and rest: "read_strings n s2 = Inr (vs', s')"
    by (auto split: sum.splits prod.splits)
  from st have "\<exists>q. s2 = s1\<lparr>pos := q\<rparr>"
    by (auto split: if_splits dest: read_string_snd intro: exI [of _ "pos s1"])
  then obtain q where s2: "s2 = s1\<lparr>pos := q\<rparr>" by blast
  from Suc.IH [OF rest] obtain p where "s' = s2\<lparr>pos := p\<rparr>" by blast
  with read_uint_Inr [OF r] s2 have "s' = s\<lparr>pos := p\<rparr>" by simp
  then show ?case by blast
qed

lemma read_object_types_frame:
  "read_object_types n s = Inr (vs, s') \<Longrightarrow> \<exists>p. s' = s\<lparr>pos := p\<rparr>"
proof (induction n arbitrary: s vs s')
  case 0
  then show ?case by (auto intro: exI [of _ "pos s"])
next
  case (Suc n)
  from Suc.prems obtain v s1 vs' where
    r: "read_ushort s = Inr (v, s1)" and rest: "read_object_types n s1 = Inr (vs', s')"
    by (auto simp: Let_def split: sum.splits)
  from Suc.IH [OF rest] obtain p where "s' = s1\<lparr>pos := p\<rparr>" by blast
  with read_ushort_Inr [OF r] have "s' = s\<lparr>pos := p\<rparr>" by simp
  then show ?case by blast
qed

lemma read_regions_frame:
  "read_regions n s = Inr (vs, s') \<Longrightarrow> \<exists>p. s' = s\<lparr>pos := p\<rparr>"
proof (induction n arbitrary: s vs s')
  case 0
  then show ?case by (auto intro: exI [of _ "pos s"])
next
  case (Suc n)
  from Suc.prems obtain b s1 c s2 vs' where
    r1: "read_uint s = Inr (b, s1)" and r2: "read_uint s1 = Inr (c, s2)"
    and rest: "read_regions n s2 = Inr (vs', s')"
    by (auto split: sum.splits)
  from Suc.IH [OF rest] obtain p where "s' = s2\<lparr>pos := p\<rparr>" by blast
  with read_uint_Inr [OF r1] read_uint_Inr [OF r2] have "s' = s\<lparr>pos := p\<rparr>" by simp
  then show ?case by blast
qed

lemma read_elements_frame:
  "read_elements e n acc s = Inr (r, s') \<Longrightarrow> \<exists>p. s' = s\<lparr>pos := p\<rparr>"
proof (induction n arbitrary: e acc s)
  case 0
  then show ?case by (auto intro: exI [of _ "pos s"])
next
  case (Suc n)
  from Suc.prems obtain v s1 acc' where
    r1: "read_uint s = Inr (v, s1)" and rest: "read_elements (Suc e) n acc' s1 = Inr (r, s')"
    by (auto simp: Let_def split: sum.splits)
  from Suc.IH [OF rest] obtain p where "s' = s1\<lparr>pos := p\<rparr>" by blast
  with read_uint_Inr [OF r1] have "s' = s\<lparr>pos := p\<rparr>" by simp
  then show ?case by blast
qed

lemma read_uint_fits:
  "pos s + 4 \<le> length (data s) \<Longrightarrow>
     read_uint s = Inr (le_decode (take 4 (drop (pos s) (data s))), s\<lparr>pos := pos s + 4\<rparr>)"
  by (simp add: read_uint_def unpack_from_def)


section \<open>What the parse steps leave unchanged\<close>

lemma parse_header_frame:
  assumes "parse_header s = Inr (ok, s')"
  shows "data s' = data s \<and> modified s' = modified s \<and> object_sizes s' = object_sizes s
         \<and> (ok \<longrightarrow> 0 < num_objects s')"
  using assms unfolding parse_header_def
  by (auto simp: sum_bind_Inr if_eq_Inr option_case_eq_Inr
      dest!: read_uint_Inr read_byte_Inr read_int_Inr)

lemma parse_metadata_frame:
  "parse_metadata s = Inr (ok, s') \<Longrightarrow> (\<exists>p. s' = s\<lparr>pos := p\<rparr>) \<and> ok"
  by (auto simp: parse_metadata_def split: sum.splits if_splits dest!: read_uint_Inr
      intro: exI [of _ "pos s"])

lemma parse_type_names_and_indices_frame:
  assumes "parse_type_names_and_indices s = Inr (ok, s')"
  shows "(\<exists>p tn ot. s' = s\<lparr>pos := p, type_names := tn, object_types := ot\<rparr>) \<and> ok"
proof -
  from assms obtain n s1 names s2 ts s3 where
    r: "read_ushort s = Inr (n, s1)" and tn: "read_type_names n s1 = Inr (names, s2)"
    and ot: "read_object_types (nat (num_objects s2)) (s2\<lparr>type_names := names\<rparr>) = Inr (ts, s3)"
    and res: "s' = s3\<lparr>object_types := ts\<rparr>" "ok"
    by (auto simp: parse_type_names_and_indices_def split: sum.splits)
  from read_type_names_frame [OF tn] obtain p2 where "s2 = s1\<lparr>pos := p2\<rparr>" by blast
  moreover from read_object_types_frame [OF ot] obtain p3
    where "s3 = s2\<lparr>type_names := names, pos := p3\<rparr>" by blast
  ultimately have "s' = s\<lparr>pos := p3, type_names := names, object_types := ts\<rparr>"
    using read_ushort_Inr [OF r] res by simp
  with res show ?thesis by blast
qed

lemma parse_object_sizes_frame:
  assumes "parse_object_sizes s = Inr (ok, s')"
  shows "(\<exists>p sz. s' = s\<lparr>pos := p, object_sizes := sz\<rparr>) \<and> ok
         \<and> (file_ver s < nif_version 20 2 0 5 \<longrightarrow> s' = s)"
proof (cases "file_ver s \<ge> nif_version 20 2 0 5")
  case True
  with assms obtain sz s1 where
    r: "read_uints (nat (num_objects s)) s = Inr (sz, s1)"
    and res: "s' = s1\<lparr>object_sizes := sz\<rparr>" "ok"
    by (auto simp: parse_object_sizes_def split: sum.splits)
  from read_uints_frame [OF r] obtain p where "s1 = s\<lparr>pos := p\<rparr>" by blast
  with res have "s' = s\<lparr>pos := p, object_sizes := sz\<rparr>" by simp
  then have "\<exists>p sz. s' = s\<lparr>pos := p, object_sizes := sz\<rparr>" by blast
  with res True show ?thesis by simp
next
  case False
  with assms have "s' = s" "ok" by (auto simp: parse_object_sizes_def)
  moreover have "s = s\<lparr>pos := pos s, object_sizes := object_sizes s\<rparr>" by simp
  ultimately show ?thesis by blast
qed

lemma parse_object_sizes_length:
  assumes "parse_object_sizes s = Inr (ok, s')" and "nif_version 20 2 0 5 \<le> file_ver s"
  shows "length (object_sizes s') = nat (num_objects s)"
proof -
  from assms obtain sz s1 where
    r: "read_uints (nat (num_objects s)) s = Inr (sz, s1)"
    and res: "s' = s1\<lparr>object_sizes := sz\<rparr>"
    by (auto simp: parse_object_sizes_def sum_bind_Inr)
  from read_uints_frame [OF r] res show ?thesis by simp
qed

lemma parse_string_table_frame:
  assumes "parse_string_table s = Inr (ok, s')"
  shows "(\<exists>p st. s' = s\<lparr>pos := p, string_table := st\<rparr>) \<and> ok"
proof (cases "file_ver s \<ge> nif_version 20 1 0 1")
  case True
  with assms obtain a s1 b s2 strs s3 where
    r1: "read_uint s = Inr (a, s1)" and r2: "read_uint s1 = Inr (b, s2)"
    and r3: "read_strings a s2 = Inr (strs, s3)"
    and res: "s' = s3\<lparr>string_table := strs\<rparr>" "ok"
    by (auto simp: parse_string_table_def split: sum.splits)
  from read_strings_frame [OF r3] obtain p where "s3 = s2\<lparr>pos := p\<rparr>" by blast
  with read_uint_Inr [OF r1] read_uint_Inr [OF r2] res
  have "s' = s\<lparr>pos := p, string_table := strs\<rparr>" by simp
  with res show ?thesis by blast
next
  case False
  with assms have "s' = s" "ok" by (auto simp: parse_string_table_def)
  moreover have "s = s\<lparr>pos := pos s, string_table := string_table s\<rparr>" by simp
  ultimately show ?thesis by blast
qed

lemma parse_object_groups_frame:
  assumes "parse_object_groups s = Inr (ok, s')"
  shows "(\<exists>p. s' = s\<lparr>pos := p\<rparr>) \<and> ok"
proof (cases "file_ver s \<ge> nif_version 5 0 0 6")
  case True
  with assms obtain a s1 gs where
    r1: "read_uint s = Inr (a, s1)" and r2: "read_uints a s1 = Inr (gs, s')" and ok: "ok"
    by (auto simp: parse_object_groups_def split: sum.splits)
  from read_uints_frame [OF r2] obtain p where "s' = s1\<lparr>pos := p\<rparr>" by blast
  with read_uint_Inr [OF r1] have "s' = s\<lparr>pos := p\<rparr>" by simp
  with ok show ?thesis by blast
next
  case False
  with assms have "s' = s" "ok" by (auto simp: parse_object_groups_def)
  moreover have "s = s\<lparr>pos := pos s\<rparr>" by simp
  ultimately show ?thesis by blast
qed

lemma build_object_offsets_frame:
  "build_object_offsets s = Inr s' \<Longrightarrow> \<exists>offs. s' = s\<lparr>object_offsets := offs\<rparr>"
  by (auto simp: build_object_offsets_def split: sum.splits)


section \<open>The offset loop\<close>

lemma offsets_loop_spec:
  "offsets_loop sizes i current_pos n = Inr offs \<Longrightarrow>
     length offs = n \<and> (0 < n \<longrightarrow> offs ! 0 = current_pos)
     \<and> (\<forall>k. Suc k < n \<longrightarrow> offs ! Suc k = offs ! k + sizes ! (i + k))"
proof (induction n arbitrary: i current_pos offs)
  case 0
  then show ?case by simp
next
  case (Suc n)
  from Suc.prems obtain offs' where
    rest: "offsets_loop sizes (Suc i) (current_pos + sizes ! i) n = Inr offs'"
    and offs: "offs = current_pos # offs'"
    by (auto simp: list_get_def split: sum.splits if_splits)
  from Suc.IH [OF rest] have len: "length offs' = n"
    and hd: "0 < n \<longrightarrow> offs' ! 0 = current_pos + sizes ! i"
    and step: "\<forall>k. Suc k < n \<longrightarrow> offs' ! Suc k = offs' ! k + sizes ! (Suc i + k)"
    by simp_all
  have "offs ! Suc k = offs ! k + sizes ! (i + k)" if "Suc k < Suc n" for k
  proof (cases k)
    case 0
    with that hd offs show ?thesis by simp
  next
    case (Suc j)
    with that step offs show ?thesis by simp
  qed
  with len offs show ?case by simp
qed

lemma offsets_loop_sizes:
  "offsets_loop sizes i current_pos (Suc n) = Inr offs \<Longrightarrow> i < length sizes"
  by (auto simp: sum_bind_Inr list_get_def split: if_splits)

lemma build_object_offsets_sizes:
  assumes "build_object_offsets s = Inr s'" and "0 < num_objects s"
  shows "object_sizes s \<noteq> []"
proof -
  from assms(2) obtain n where n: "nat (num_objects s) = Suc n" by (cases "nat (num_objects s)") auto
  from assms(1) obtain offs where
    "offsets_loop (object_sizes s) 0 (pos s) (nat (num_objects s)) = Inr offs"
    by (auto simp: build_object_offsets_def sum_bind_Inr)
  with n have "offsets_loop (object_sizes s) 0 (pos s) (Suc n) = Inr offs" by simp
  from offsets_loop_sizes [OF this] show ?thesis by auto
qed

lemma offsets_loop_total:
  "i + n \<le> length sizes \<Longrightarrow> \<exists>offs. offsets_loop sizes i current_pos n = Inr offs"
proof (induction n arbitrary: i current_pos)
  case 0
  then show ?case by simp
next
  case (Suc n)
  then have "i < length sizes" "Suc i + n \<le> length sizes" by simp_all
  from Suc.IH [OF this(2), of "current_pos + sizes ! i"] this(1) show ?case
    by (auto simp: list_get_def)
qed

section \<open>A run, step by step\<close>

text \<open>
  A run that returns normally either stopped after the header, or went through every
  table, the offset loop and \<^verbatim>\<open>process_all_meshes\<close>.
\<close>

lemma parse_and_fix_Inr:
  assumes "parse_and_fix s0 = Inr (m, s')"
  shows "(\<exists>s1. parse_header s0 = Inr (False, s1) \<and> \<not> m \<and> s' = s1)
         \<or> (\<exists>s1 s6 s7 printed.
               parse_header s0 = Inr (True, s1)
               \<and> data s6 = data s1 \<and> modified s6 = modified s1
               \<and> num_objects s6 = num_objects s1
               \<and> (file_ver s1 < nif_version 20 2 0 5 \<longrightarrow> object_sizes s6 = object_sizes s1)
               \<and> build_object_offsets s6 = Inr s7
               \<and> process_all_meshes s7 = Inr (printed, s') \<and> m = modified s')"
proof (cases "parse_header s0")
  case (Inl e)
  with assms show ?thesis by (simp add: parse_and_fix_def)
next
  case (Inr r)
  obtain ok1 s1 where r: "r = (ok1, s1)" by (cases r)
  show ?thesis
  proof (cases ok1)
    case False
    with assms Inr r show ?thesis by (simp add: parse_and_fix_def)
  next
    case True
    from Inr r True have h: "parse_header s0 = Inr (True, s1)" by simp
    obtain s2 where st2: "parse_metadata s1 = Inr (True, s2)"
    proof (cases "parse_metadata s1")
      case (Inl e)
      with assms h show ?thesis by (simp add: parse_and_fix_def)
    next
      case (Inr r')
      with parse_metadata_frame [of s1 "fst r'" "snd r'"] that show ?thesis by (cases r') auto
    qed
    obtain s3 where st3: "(if file_ver s2 \<ge> nif_version 5 0 0 1
                               then parse_type_names_and_indices s2
                               else Inr (True, s2)) = Inr (True, s3)"
    proof (cases "file_ver s2 \<ge> nif_version 5 0 0 1")
      case False
      with that show ?thesis by simp
    next
      case True
      show ?thesis
      proof (cases "parse_type_names_and_indices s2")
        case (Inl e)
        with assms h st2 True show ?thesis by (simp add: parse_and_fix_def)
      next
        case (Inr r')
        with parse_type_names_and_indices_frame [of s2 "fst r'" "snd r'"] True that
        show ?thesis by (cases r') auto
      qed
    qed
    obtain s4 where st4: "parse_object_sizes s3 = Inr (True, s4)"
    proof (cases "parse_object_sizes s3")
      case (Inl e)
      with assms h st2 st3 show ?thesis by (simp add: parse_and_fix_def)
    next
      case (Inr r')
      with parse_object_sizes_frame [of s3 "fst r'" "snd r'"] that show ?thesis by (cases r') auto
    qed
    obtain s5 where st5: "parse_string_table s4 = Inr (True, s5)"
    proof (cases "parse_string_table s4")
      case (Inl e)
      with assms h st2 st3 st4 show ?thesis by (simp add: parse_and_fix_def)
    next
      case (Inr r')
      with parse_string_table_frame [of s4 "fst r'" "snd r'"] that show ?thesis by (cases r') auto
    qed
    obtain s6 where st6: "parse_object_groups s5 = Inr (True, s6)"
    proof (cases "parse_object_groups s5")
      case (Inl e)
      with assms h st2 st3 st4 st5 show ?thesis by (simp add: parse_and_fix_def)
    next
      case (Inr r')
      with parse_object_groups_frame [of s5 "fst r'" "snd r'"] that show ?thesis by (cases r') auto
    qed
    obtain s7 where st7: "build_object_offsets s6 = Inr s7"
    proof (cases "build_object_offsets s6")
      case (Inl e)
      with assms h st2 st3 st4 st5 st6 show ?thesis by (simp add: parse_and_fix_def)
    next
      case (Inr s7)
      with that show ?thesis by simp
    qed
    obtain printed where st8: "process_all_meshes s7 = Inr (printed, s')" and m: "m = modified s'"
    proof (cases "process_all_meshes s7")
      case (Inl e)
      with assms h st2 st3 st4 st5 st6 st7 show ?thesis by (simp add: parse_and_fix_def)
    next
      case (Inr r')
      with assms h st2 st3 st4 st5 st6 st7 that show ?thesis
        by (cases r') (auto simp: parse_and_fix_def)
    qed
    from parse_metadata_frame [OF st2] obtain p2 where s2: "s2 = s1\<lparr>pos := p2\<rparr>" by blast
    from st3 have "\<exists>p tn ot. s3 = s2\<lparr>pos := p, type_names := tn, object_types := ot\<rparr>"
    proof (cases "file_ver s2 \<ge> nif_version 5 0 0 1")
      case True
      with st3 show ?thesis by (auto dest: parse_type_names_and_indices_frame)
    next
      case False
      with st3 have "s3 = s2\<lparr>pos := pos s2, type_names := type_names s2,
                                object_types := object_types s2\<rparr>" by simp
      then show ?thesis by blast
    qed
    then obtain p3 tn ot where s3: "s3 = s2\<lparr>pos := p3, type_names := tn, object_types := ot\<rparr>"
      by blast
    from parse_object_sizes_frame [OF st4] obtain p4 sz where
      s4: "s4 = s3\<lparr>pos := p4, object_sizes := sz\<rparr>"
      and s4': "file_ver s3 < nif_version 20 2 0 5 \<longrightarrow> s4 = s3" by blast
    from parse_string_table_frame [OF st5] obtain p5 st where
      s5: "s5 = s4\<lparr>pos := p5, string_table := st\<rparr>" by blast
    from parse_object_groups_frame [OF st6] obtain p6 where s6: "s6 = s5\<lparr>pos := p6\<rparr>" by blast
    have "data s6 = data s1" "modified s6 = modified s1" "num_objects s6 = num_objects s1"
      by (simp_all add: s2 s3 s4 s5 s6)
    moreover have "object_sizes s6 = object_sizes s1" if "file_ver s1 < nif_version 20 2 0 5"
    proof -
      from that s4' have "s4 = s3" by (simp add: s2 s3)
      then show ?thesis by (simp add: s2 s3 s5 s6)
    qed
    ultimately show ?thesis using h st7 st8 m by blast
  qed
qed

lemma parse_and_fix_tables:
  "parse_and_fix s0 =
     (case parse_tables s0 of
        Inl err \<Rightarrow> Inl err
      | Inr (ok, s6) \<Rightarrow> if \<not> ok then Inr (False, s6) else
     (case build_object_offsets s6 of
        Inl err \<Rightarrow> Inl err
      | Inr s7 \<Rightarrow>
     (case process_all_meshes s7 of
        Inl err \<Rightarrow> Inl err
      | Inr (printed, s8) \<Rightarrow> Inr (modified s8, s8))))"
proof -
  show ?thesis
  proof (cases "parse_header s0" rule: stage_cases)
    case (err e)
    then show ?thesis by (simp add: parse_and_fix_def parse_tables_def)
  next
    case (stop s)
    then show ?thesis by (simp add: parse_and_fix_def parse_tables_def)
  next
    case (ok s1)
    note st1 = ok
    show ?thesis
    proof (cases "parse_metadata s1" rule: stage_cases)
      case (err e)
      with st1 show ?thesis by (simp add: parse_and_fix_def parse_tables_def)
    next
      case (stop s)
      with st1 show ?thesis by (simp add: parse_and_fix_def parse_tables_def)
    next
      case (ok s2)
      note st2 = ok
      show ?thesis
      proof (cases "(if file_ver s2 \<ge> nif_version 5 0 0 1 then parse_type_names_and_indices s2 else Inr (True, s2))" rule: stage_cases)
        case (err e)
        with st1 st2 show ?thesis by (simp add: parse_and_fix_def parse_tables_def)
      next
        case (stop s)
        with st1 st2 show ?thesis by (simp add: parse_and_fix_def parse_tables_def)
      next
        case (ok s3)
        note st3 = ok
        show ?thesis
        proof (cases "parse_object_sizes s3" rule: stage_cases)
          case (err e)
          with st1 st2 st3 show ?thesis by (simp add: parse_and_fix_def parse_tables_def)
        next
          case (stop s)
          with st1 st2 st3 show ?thesis by (simp add: parse_and_fix_def parse_tables_def)
        next
          case (ok s4)
          note st4 = ok
          show ?thesis
          proof (cases "parse_string_table s4" rule: stage_cases)
            case (err e)
            with st1 st2 st3 st4 show ?thesis by (simp add: parse_and_fix_def parse_tables_def)
          next
            case (stop s)
            with st1 st2 st3 st4 show ?thesis by (simp add: parse_and_fix_def parse_tables_def)
          next
            case (ok s5)
            note st5 = ok
            show ?thesis
            proof (cases "parse_object_groups s5" rule: stage_cases)
              case (err e)
              with st1 st2 st3 st4 st5 show ?thesis by (simp add: parse_and_fix_def parse_tables_def)
            next
              case (stop s)
              with st1 st2 st3 st4 st5 show ?thesis by (simp add: parse_and_fix_def parse_tables_def)
            next
              case (ok s6)
              note st6 = ok
              show ?thesis using st1 st2 st3 st4 st5 st6 by (simp add: parse_and_fix_def parse_tables_def)
            qed
          qed
        qed
      qed
    qed
  qed
qed

lemma parse_tables_Inr:
  assumes "parse_tables s0 = Inr (True, s6)"
  shows "\<exists>s1. parse_header s0 = Inr (True, s1)
           \<and> data s6 = data s1 \<and> modified s6 = modified s1
           \<and> num_objects s6 = num_objects s1 \<and> file_ver s6 = file_ver s1
           \<and> (file_ver s1 < nif_version 20 2 0 5 \<longrightarrow> object_sizes s6 = object_sizes s1)
           \<and> (nif_version 20 2 0 5 \<le> file_ver s1 \<longrightarrow>
                 length (object_sizes s6) = nat (num_objects s1))"
proof (cases "parse_header s0" rule: stage_cases)
  case (err e)
  with assms show ?thesis by (simp add: parse_tables_def)
next
  case (stop s)
  with assms show ?thesis by (simp add: parse_tables_def)
next
  case (ok s1)
  note h = ok
  obtain s2 where st2: "parse_metadata s1 = Inr (True, s2)"
  proof (cases "parse_metadata s1" rule: stage_cases)
    case (err e)
    with assms h show ?thesis by (simp add: parse_tables_def)
  next
    case (stop s)
    with assms h show ?thesis by (simp add: parse_tables_def)
  next
    case (ok s)
    with that show ?thesis by simp
  qed
  let ?t3 = "if file_ver s2 \<ge> nif_version 5 0 0 1 then parse_type_names_and_indices s2
             else Inr (True, s2)"
  obtain s3 where st3: "?t3 = Inr (True, s3)"
  proof (cases ?t3 rule: stage_cases)
    case (err e)
    with assms h st2 show ?thesis by (simp add: parse_tables_def)
  next
    case (stop s)
    with assms h st2 show ?thesis by (simp add: parse_tables_def)
  next
    case (ok s)
    with that show ?thesis by simp
  qed
  obtain s4 where st4: "parse_object_sizes s3 = Inr (True, s4)"
  proof (cases "parse_object_sizes s3" rule: stage_cases)
    case (err e)
    with assms h st2 st3 show ?thesis by (simp add: parse_tables_def)
  next
    case (stop s)
    with assms h st2 st3 show ?thesis by (simp add: parse_tables_def)
  next
    case (ok s)
    with that show ?thesis by simp
  qed
  obtain s5 where st5: "parse_string_table s4 = Inr (True, s5)"
  proof (cases "parse_string_table s4" rule: stage_cases)
    case (err e)
    with assms h st2 st3 st4 show ?thesis by (simp add: parse_tables_def)
  next
    case (stop s)
    with assms h st2 st3 st4 show ?thesis by (simp add: parse_tables_def)
  next
    case (ok s)
    with that show ?thesis by simp
  qed
  have st6: "parse_object_groups s5 = Inr (True, s6)"
  proof (cases "parse_object_groups s5" rule: stage_cases)
    case (err e)
    with assms h st2 st3 st4 st5 show ?thesis by (simp add: parse_tables_def)
  next
    case (stop s)
    with assms h st2 st3 st4 st5 show ?thesis by (simp add: parse_tables_def)
  next
    case (ok s)
    with assms h st2 st3 st4 st5 show ?thesis by (simp add: parse_tables_def)
  qed
  from parse_metadata_frame [OF st2] obtain p2 where s2: "s2 = s1\<lparr>pos := p2\<rparr>" by blast
  have "\<exists>p tn ot. s3 = s2\<lparr>pos := p, type_names := tn, object_types := ot\<rparr>"
  proof (cases "file_ver s2 \<ge> nif_version 5 0 0 1")
    case True
    with st3 show ?thesis by (auto dest: parse_type_names_and_indices_frame)
  next
    case False
    with st3 have "s3 = s2\<lparr>pos := pos s2, type_names := type_names s2,
                              object_types := object_types s2\<rparr>" by simp
    then show ?thesis by blast
  qed
  then obtain p3 tn ot where s3: "s3 = s2\<lparr>pos := p3, type_names := tn, object_types := ot\<rparr>"
    by blast
  from parse_object_sizes_frame [OF st4] obtain p4 sz where
    s4: "s4 = s3\<lparr>pos := p4, object_sizes := sz\<rparr>"
    and s4': "file_ver s3 < nif_version 20 2 0 5 \<longrightarrow> s4 = s3" by blast
  from parse_string_table_frame [OF st5] obtain p5 st where
    s5: "s5 = s4\<lparr>pos := p5, string_table := st\<rparr>" by blast
  from parse_object_groups_frame [OF st6] obtain p6 where s6: "s6 = s5\<lparr>pos := p6\<rparr>" by blast
  have "data s6 = data s1" "modified s6 = modified s1" "num_objects s6 = num_objects s1"
    "file_ver s6 = file_ver s1"
    by (simp_all add: s2 s3 s4 s5 s6)
  moreover have "object_sizes s6 = object_sizes s1" if "file_ver s1 < nif_version 20 2 0 5"
  proof -
    from that s4' have "s4 = s3" by (simp add: s2 s3)
    then show ?thesis by (simp add: s2 s3 s5 s6)
  qed
  moreover have "length (object_sizes s6) = nat (num_objects s1)"
    if "nif_version 20 2 0 5 \<le> file_ver s1"
  proof -
    from that have "nif_version 20 2 0 5 \<le> file_ver s3" by (simp add: s2 s3)
    from parse_object_sizes_length [OF st4 this] show ?thesis by (simp add: s2 s3 s5 s6)
  qed
  ultimately show ?thesis using h by blast
qed

lemma offsets_after_tables:
  assumes "parse_tables s0 = Inr (True, s6)" and "nif_version 20 2 0 5 \<le> file_ver s6"
  shows "\<exists>offs. build_object_offsets s6 = Inr (s6\<lparr>object_offsets := offs\<rparr>)
           \<and> length offs = nat (num_objects s6) \<and> 0 < num_objects s6 \<and> offs ! 0 = pos s6
           \<and> (\<forall>i. Suc i < nat (num_objects s6) \<longrightarrow>
                  offs ! Suc i = offs ! i + object_sizes s6 ! i)"
proof -
  from parse_tables_Inr [OF assms(1)] obtain s1 where
    h: "parse_header s0 = Inr (True, s1)" and n: "num_objects s6 = num_objects s1"
    and v: "file_ver s6 = file_ver s1"
    and len: "nif_version 20 2 0 5 \<le> file_ver s1 \<longrightarrow>
                length (object_sizes s6) = nat (num_objects s1)"
    by blast
  from parse_header_frame [OF h] n have pos: "0 < num_objects s6" by simp
  from len v n assms(2) have "0 + nat (num_objects s6) \<le> length (object_sizes s6)" by simp
  from offsets_loop_total [OF this] obtain offs where
    loop: "offsets_loop (object_sizes s6) 0 (pos s6) (nat (num_objects s6)) = Inr offs" by blast
  then have "build_object_offsets s6 = Inr (s6\<lparr>object_offsets := offs\<rparr>)"
    by (simp add: build_object_offsets_def)
  with offsets_loop_spec [OF loop] pos show ?thesis by auto
qed


section \<open>The triangle loop\<close>

lemma length_le_encode [simp]: "length (le_encode w v) = w"
  by (induction w arbitrary: v) auto

lemma le_decode_bound: "le_decode bs < 2 ^ (8 * length bs)"
proof (induction bs)
  case Nil
  then show ?case by simp
next
  case (Cons b bs)
  have "unat b < 2 ^ LENGTH(8)" by (rule unsigned_less)
  then have "unat b < 256" by simp
  moreover from Cons have "le_decode bs + 1 \<le> 2 ^ (8 * length bs)" by simp
  then have "256 * (le_decode bs + 1) \<le> 256 * 2 ^ (8 * length bs)" by simp
  ultimately have "unat b + 256 * le_decode bs < 256 * 2 ^ (8 * length bs)" by simp
  then show ?case by (simp add: power_add)
qed

lemma le_decode_take_bound: "le_decode (take w xs) < 2 ^ (8 * w)"
proof -
  have "le_decode (take w xs) < 2 ^ (8 * length (take w xs))" by (rule le_decode_bound)
  also have "\<dots> \<le> (2::nat) ^ (8 * w)" by (rule power_increasing) simp_all
  finally show ?thesis .
qed



lemma pack_into3_length: "pack_into3 w d off v = Inr d' \<Longrightarrow> length d' = length d"
  by (cases v) (auto simp: pack_into3_def if_eq_Inr)

lemma pack_into3_total:
  assumes "off + 3 * w \<le> length d"
  shows "\<exists>d'. pack_into3 w d off (le_decode (take w xs), le_decode (take w ys),
                                    le_decode (take w zs)) = Inr d'"
  using assms by (simp add: pack_into3_def le_decode_take_bound)


lemma swap_triangles_length:
  "swap_triangles w ro t n d = Inr d' \<Longrightarrow> length d' = length d"
proof (induction n arbitrary: t d)
  case 0
  then show ?case by simp
next
  case (Suc n)
  show ?case
  proof (cases "ro + t * (3 * w) + 3 * w > length d")
    case True
    with Suc.prems show ?thesis by simp
  next
    case False
    with Suc.prems obtain v d1 where
      p: "pack_into3 w d (ro + t * (3 * w)) v = Inr d1"
      and r: "swap_triangles w ro (Suc t) n d1 = Inr d'"
      by (auto simp: Let_def sum_bind_Inr)
    from Suc.IH [OF r] pack_into3_length [OF p] show ?thesis by simp
  qed
qed

lemma swap_triangles_total:
  "\<exists>d'. swap_triangles w ro t n d = Inr d' \<and> length d' = length d"
proof (induction n arbitrary: t d)
  case 0
  show ?case by simp
next
  case (Suc n)
  let ?off = "ro + t * (3 * w)"
  show ?case
  proof (cases "?off + 3 * w > length d")
    case True
    then show ?thesis by simp
  next
    case False
    then have fit: "?off + 3 * w \<le> length d" by simp
    from pack_into3_total [OF fit] obtain d1 where
      p: "pack_into3 w d ?off (le_decode (take w (drop ?off d)),
                               le_decode (take w (drop (?off + 2 * w) d)),
                               le_decode (take w (drop (?off + w) d))) = Inr d1"
      by blast
    from pack_into3_length [OF p] have len: "length d1 = length d" .
    from Suc.IH [of "Suc t" d1] obtain d' where
      "swap_triangles w ro (Suc t) n d1 = Inr d'" "length d' = length d1" by blast
    with p len fit show ?thesis by (simp add: unpack_from3_def Let_def)
  qed
qed

lemma swap_tail_nil [simp]: "swap_tail w n [] = []"
  by (induction n) auto

lemma swap_tail_length [simp]: "length (swap_tail w n xs) = length xs"
  by (induction n arbitrary: xs) auto



section \<open>The regions of a stream\<close>

lemma patch_regions_length:
  "patch_regions i st ds rs acc = Inr acc' \<Longrightarrow> length (snd acc') = length (snd acc)"
proof (induction rs arbitrary: acc)
  case Nil
  then show ?case by simp
next
  case (Cons r rs)
  obtain b c where r: "r = (b, c)" by (cases r)
  show ?case
  proof (cases "(i = 2 \<or> i = 4) \<and> c mod 3 = 0")
    case False
    with Cons.prems r have "patch_regions i st ds rs acc = Inr acc'"
      by (auto split: if_splits)
    from Cons.IH [OF this] show ?thesis .
  next
    case True
    with Cons.prems r obtain d1 where
      sw: "swap_triangles i (ds + b * st) 0 (c div 3) (snd acc) = Inr d1"
      and rest: "patch_regions i st ds rs (fst acc + c div 3, d1) = Inr acc'"
      by (auto simp: Let_def sum_bind_Inr)
    from Cons.IH [OF rest] swap_triangles_length [OF sw] show ?thesis by simp
  qed
qed

lemma patch_regions_total:
  "\<exists>tot' d'. patch_regions w st ds rs (tot, d) = Inr (tot', d') \<and> length d' = length d"
proof (induction rs arbitrary: tot d)
  case Nil
  show ?case by simp
next
  case (Cons r rs)
  obtain b c where r: "r = (b, c)" by (cases r)
  show ?case
  proof (cases "(w = 2 \<or> w = 4) \<and> c mod 3 = 0")
    case False
    with Cons.IH [of tot d] r show ?thesis by auto
  next
    case True
    from swap_triangles_total [of w "ds + b * st" 0 "c div 3" d] obtain d1 where
      sw: "swap_triangles w (ds + b * st) 0 (c div 3) d = Inr d1" and len: "length d1 = length d"
      by blast
    from Cons.IH [of "tot + c div 3" d1] obtain tot' d' where
      "patch_regions w st ds rs (tot + c div 3, d1) = Inr (tot', d')" "length d' = length d1"
      by blast
    with True r sw len show ?thesis by (auto simp: Let_def)
  qed
qed



lemma patch_regions_other_width:
  "w \<noteq> 2 \<Longrightarrow> w \<noteq> 4 \<Longrightarrow> patch_regions w st ds rs acc = Inr acc"
  by (induction rs) (auto simp: case_prod_beta)

lemma read_elements_total:
  "pos s + 4 * n \<le> length (data s) \<Longrightarrow>
     \<exists>r. read_elements e n acc s = Inr (r, s\<lparr>pos := pos s + 4 * n\<rparr>)
       \<and> fst r = (if e = 0 \<and> 0 < n
                  then (let elem_data = le_decode (take 4 (drop (pos s) (data s)))
                        in if elem_data AND 255 \<in> {10, 11} then 4
                           else drop_bit 8 elem_data AND 255)
                  else fst acc)"
proof (induction n arbitrary: e acc s)
  case 0
  then show ?case by simp
next
  case (Suc n)
  let ?v = "le_decode (take 4 (drop (pos s) (data s)))"
  let ?s1 = "s\<lparr>pos := pos s + 4\<rparr>"
  let ?acc = "(if e = 0 then (if ?v AND 255 \<in> {10, 11} then 4 else drop_bit 8 ?v AND 255)
               else fst acc,
               snd acc + (drop_bit 16 ?v AND 255) * (drop_bit 8 ?v AND 255))"
  from Suc.prems have r: "read_uint s = Inr (?v, ?s1)" by (simp add: read_uint_fits)
  from Suc.prems have "pos ?s1 + 4 * n \<le> length (data ?s1)" by simp
  from Suc.IH [OF this, of "Suc e" ?acc] obtain r' where
    rest: "read_elements (Suc e) n ?acc ?s1 = Inr (r', ?s1\<lparr>pos := pos ?s1 + 4 * n\<rparr>)"
    and w: "fst r' = fst ?acc" by auto
  have "read_elements e (Suc n) acc s = Inr (r', s\<lparr>pos := pos s + 4 * Suc n\<rparr>)"
    using r rest by (simp add: Let_def add.assoc)
  with w show ?case by (auto simp: Let_def)
qed

section \<open>What the patcher leaves unchanged\<close>

lemma static_part_fields:
  "file_ver (static_part s) = file_ver s" "user_ver (static_part s) = user_ver s"
  "num_objects (static_part s) = num_objects s" "type_names (static_part s) = type_names s"
  "object_types (static_part s) = object_types s" "object_sizes (static_part s) = object_sizes s"
  "object_offsets (static_part s) = object_offsets s"
  "string_table (static_part s) = string_table s"
  by (simp_all add: static_part_def)

lemma static_part_update [simp]:
  "static_part (s\<lparr>pos := p\<rparr>) = static_part s"
  "static_part (s\<lparr>data := d\<rparr>) = static_part s"
  "static_part (s\<lparr>modified := m\<rparr>) = static_part s"
  by (simp_all add: static_part_def)

lemma static_part_eqD:
  assumes "static_part s' = static_part s"
  shows "string_table s' = string_table s" "object_types s' = object_types s"
    "num_objects s' = num_objects s" "object_offsets s' = object_offsets s"
    "object_sizes s' = object_sizes s" "file_ver s' = file_ver s"
  using assms static_part_fields [of s] static_part_fields [of s'] by simp_all

lemma fix_datastream_winding_frame:
  assumes "fix_datastream_winding s k = Inr s'"
  shows "static_part s' = static_part s \<and> length (data s') = length (data s)"
proof -
  from assms obtain off a1 s1 a2 s2 a3 s3 regs s4 a5 s5 isz est s6 tot d' where
    r1: "read_uint (s\<lparr>pos := off\<rparr>) = Inr (a1, s1)" and r2: "read_uint s1 = Inr (a2, s2)"
    and r3: "read_uint s2 = Inr (a3, s3)" and r4: "read_regions a3 s3 = Inr (regs, s4)"
    and r5: "read_uint s4 = Inr (a5, s5)"
    and r6: "read_elements 0 a5 (2, 0) s5 = Inr ((isz, est), s6)"
    and p: "patch_regions isz est (pos s6) regs (0, data s6) = Inr (tot, d')"
    and s': "s' = (if tot > 0 then s6\<lparr>data := d', modified := True\<rparr> else s6\<lparr>data := d'\<rparr>)"
    by (auto simp: fix_datastream_winding_def sum_bind_Inr)
  from read_regions_frame [OF r4] obtain p4 where "s4 = s3\<lparr>pos := p4\<rparr>" by blast
  moreover from read_elements_frame [OF r6] obtain p6 where "s6 = s5\<lparr>pos := p6\<rparr>" by blast
  ultimately have s6: "s6 = s\<lparr>pos := p6\<rparr>"
    using read_uint_Inr [OF r1] read_uint_Inr [OF r2] read_uint_Inr [OF r3] read_uint_Inr [OF r5]
    by simp
  from patch_regions_length [OF p] have "length d' = length (data s6)" by simp
  with s6 s' show ?thesis by simp
qed

lemma process_streams_frame:
  "process_streams i xs (P, pr, s) = Inr (P', pr', s') \<Longrightarrow>
     static_part s' = static_part s \<and> length (data s') = length (data s)"
proof (induction xs arbitrary: P pr s)
  case Nil
  then show ?case by simp
next
  case (Cons x xs)
  show ?case
  proof (cases "fst x \<in> P")
    case True
    with Cons.prems have "process_streams i xs (P, pr, s) = Inr (P', pr', s')" by simp
    from Cons.IH [OF this] show ?thesis .
  next
    case False
    with Cons.prems obtain s1 where
      f: "fix_datastream_winding s (fst x) = Inr s1"
      and rest: "process_streams i xs (insert (fst x) P, pr @ [(i, fst x)], s1) = Inr (P', pr', s')"
      by (auto simp: sum_bind_Inr)
    from Cons.IH [OF rest] fix_datastream_winding_frame [OF f] show ?thesis by simp
  qed
qed

lemma meshes_loop_frame:
  "meshes_loop ix i n (P, pr, s) = Inr (P', pr', s') \<Longrightarrow>
     static_part s' = static_part s \<and> length (data s') = length (data s)"
proof (induction n arbitrary: i P pr s)
  case 0
  then show ?case by simp
next
  case (Suc n)
  from Suc.prems obtain t where t: "list_get (object_types s) i = Inr t"
    by (auto simp: sum_bind_Inr)
  show ?case
  proof (cases "t \<noteq> lit ''NiMesh''")
    case True
    with Suc.prems t have "meshes_loop ix (Suc i) n (P, pr, s) = Inr (P', pr', s')" by simp
    from Suc.IH [OF this] show ?thesis .
  next
    case False
    with Suc.prems t obtain streams P1 pr1 s1 where
      ps: "process_streams i streams (P, pr, s) = Inr (P1, pr1, s1)"
      and rest: "meshes_loop ix (Suc i) n (P1, pr1, s1) = Inr (P', pr', s')"
      by (auto simp: sum_bind_Inr)
    from Suc.IH [OF rest] process_streams_frame [OF ps] show ?thesis by simp
  qed
qed

lemma list_index_None: "list_index xs v = None \<longleftrightarrow> v \<notin> set xs"
  by (induction xs) auto

lemma process_all_meshes_frame:
  assumes "process_all_meshes s = Inr (printed, s')"
  shows "static_part s' = static_part s \<and> length (data s') = length (data s)"
proof (cases "list_index (string_table s) (lit ''INDEX'')")
  case None
  with assms show ?thesis by (simp add: process_all_meshes_def)
next
  case (Some ix)
  with assms obtain P' where
    "meshes_loop ix 0 (nat (num_objects s)) ({}, [], s) = Inr (P', printed, s')"
    by (auto simp: process_all_meshes_def sum_bind_Inr)
  from meshes_loop_frame [OF this] show ?thesis .
qed

lemma process_all_meshes_without_index:
  "lit ''INDEX'' \<notin> set (string_table s) \<Longrightarrow> process_all_meshes s = Inr ([], s)"
  by (simp add: process_all_meshes_def list_index_None [THEN iffD2])

section \<open>Streams shared by meshes\<close>





section \<open>Evaluation on the example inputs\<close>

text \<open>The version constants, and each loop of the model at a numeral count.\<close>

lemma nif_version_eval:
  "nif_version 20 0 0 3 = 335544323" "nif_version 10 0 (Suc 0) 8 = 167772424"
  "nif_version 0 0 0 12 = 12" "nif_version 20 2 0 7 = 335675399"
  "nif_version 20 9 0 (Suc 0) = 336134145" "nif_version 5 0 0 (Suc 0) = 83886081"
  "nif_version 20 2 0 5 = 335675397" "nif_version 20 (Suc 0) 0 (Suc 0) = 335609857"
  "nif_version 5 0 0 6 = 83886086"
  by (simp_all add: nif_version_def)

lemma scan_for_numeral:
  "scan_for sub d i (numeral k) =      (if take (length sub) (drop i d) = sub then Some i else scan_for sub d (Suc i) (pred_numeral k))"
  by (simp only: numeral_eq_Suc scan_for.simps)

lemma le_encode_numeral:
  "le_encode (numeral k) v = of_nat (v mod 256) # le_encode (pred_numeral k) (v div 256)"
  by (simp only: numeral_eq_Suc le_encode.simps)

lemma read_type_names_numeral:
  "read_type_names (numeral k) s =
     (case read_uint s of
        Inl e \<Rightarrow> Inl e
      | Inr (str_len, s1) \<Rightarrow>
          (case read_string str_len s1 of (type_name, s2) \<Rightarrow>
             (case read_type_names (pred_numeral k) s2 of
                Inl e \<Rightarrow> Inl e
              | Inr (names, s3) \<Rightarrow> Inr (type_name # names, s3))))"
  by (simp only: numeral_eq_Suc read_type_names.simps)

lemma read_object_types_numeral:
  "read_object_types (numeral k) s =
     (case read_ushort s of
        Inl e \<Rightarrow> Inl e
      | Inr (type_idx0, s1) \<Rightarrow>
          (let type_idx = (if file_ver s1 \<ge> nif_version 20 2 0 5
                           then nat (int type_idx0 AND NOT 32768) else type_idx0)
           in case list_get (type_names s1) type_idx of
                Inl e \<Rightarrow> Inl e
              | Inr t \<Rightarrow>
                  (case read_object_types (pred_numeral k) s1 of
                     Inl e \<Rightarrow> Inl e
                   | Inr (ts, s2) \<Rightarrow> Inr (t # ts, s2))))"
  by (simp only: numeral_eq_Suc read_object_types.simps)

lemma read_uints_numeral:
  "read_uints (numeral k) s =
     (case read_uint s of
        Inl e \<Rightarrow> Inl e
      | Inr (v, s1) \<Rightarrow>
          (case read_uints (pred_numeral k) s1 of
             Inl e \<Rightarrow> Inl e
           | Inr (vs, s2) \<Rightarrow> Inr (v # vs, s2)))"
  by (simp only: numeral_eq_Suc read_uints.simps)

lemma read_strings_numeral:
  "read_strings (numeral k) s =
     (case read_uint s of
        Inl e \<Rightarrow> Inl e
      | Inr (str_len, s1) \<Rightarrow>
          (case (if str_len > 0 then read_string str_len s1 else ([], s1)) of (str, s2) \<Rightarrow>
             (case read_strings (pred_numeral k) s2 of
                Inl e \<Rightarrow> Inl e
              | Inr (strs, s3) \<Rightarrow> Inr (str # strs, s3))))"
  by (simp only: numeral_eq_Suc read_strings.simps)

lemma offsets_loop_numeral:
  "offsets_loop sizes i current_pos (numeral k) =
     (case list_get sizes i of
        Inl e \<Rightarrow> Inl e
      | Inr sz \<Rightarrow>
          (case offsets_loop sizes (Suc i) (current_pos + sz) (pred_numeral k) of
             Inl e \<Rightarrow> Inl e
           | Inr offs \<Rightarrow> Inr (current_pos # offs)))"
  by (simp only: numeral_eq_Suc offsets_loop.simps)

lemma validate_descs_numeral:
  "validate_descs s end_pos elem_start e (numeral k) =
     (let e_pos = elem_start + e * 8 in
      if e_pos + 8 > end_pos then Inr False
      else
        (case unpack_from 4 (data s) e_pos of
           Inl err \<Rightarrow> Inl err
         | Inr e_str \<Rightarrow>
             (case unpack_from 4 (data s) (e_pos + 4) of
                Inl err \<Rightarrow> Inl err
              | Inr e_idx \<Rightarrow>
                  if e_str \<ge> length (string_table s) \<or> e_idx \<ge> 10 then Inr False
                  else validate_descs s end_pos elem_start (Suc e) (pred_numeral k))))"
  by (simp only: numeral_eq_Suc validate_descs.simps)

lemma find_link_numeral:
  "find_link s start_pos num_pos link_offset (numeral k) =
     (if num_pos < start_pos + link_offset then Inr None
      else
        (case unpack_from 4 (data s) (num_pos - link_offset) of
           Inl err \<Rightarrow> Inl err
         | Inr link_id \<Rightarrow>
             if int link_id < num_objects s then
               (case list_get (object_types s) link_id of
                  Inl err \<Rightarrow> Inl err
                | Inr obj_type \<Rightarrow>
                    if startswith obj_type (lit ''NiDataStream'') then Inr (Some link_id)
                    else find_link s start_pos num_pos (Suc link_offset) (pred_numeral k))
             else find_link s start_pos num_pos (Suc link_offset) (pred_numeral k)))"
  by (simp only: numeral_eq_Suc find_link.simps)

lemma scan_back_numeral:
  "scan_back s start_pos end_pos idx back (numeral k) =
     (if idx < start_pos + back then Inr None
      else
        (let num_pos = idx - back in
         case unpack_from 4 (data s) num_pos of
           Inl err \<Rightarrow> Inl err
         | Inr num_elems \<Rightarrow>
             if \<not> (1 \<le> num_elems \<and> num_elems \<le> 10)
             then scan_back s start_pos end_pos idx (back + 4) (pred_numeral k)
             else
               (case validate_descs s end_pos (num_pos + 4) 0 num_elems of
                  Inl err \<Rightarrow> Inl err
                | Inr valid \<Rightarrow>
                    if \<not> valid then scan_back s start_pos end_pos idx (back + 4) (pred_numeral k)
                    else
                      (case find_link s start_pos num_pos 7 43 of
                         Inl err \<Rightarrow> Inl err
                       | Inr (Some link_id) \<Rightarrow> Inr (Some link_id)
                       | Inr None \<Rightarrow> scan_back s start_pos end_pos idx (back + 4) (pred_numeral k)))))"
  by (simp only: numeral_eq_Suc scan_back.simps)

lemma read_regions_numeral:
  "read_regions (numeral k) s =
     (case read_uint s of
        Inl err \<Rightarrow> Inl err
      | Inr (base_idx, s1) \<Rightarrow>
          (case read_uint s1 of
             Inl err \<Rightarrow> Inl err
           | Inr (count, s2) \<Rightarrow>
               (case read_regions (pred_numeral k) s2 of
                  Inl err \<Rightarrow> Inl err
                | Inr (rs, s3) \<Rightarrow> Inr ((base_idx, count) # rs, s3))))"
  by (simp only: numeral_eq_Suc read_regions.simps)

lemma read_elements_numeral:
  "read_elements e (numeral k) acc s =
     (case read_uint s of
        Inl err \<Rightarrow> Inl err
      | Inr (elem_data, s1) \<Rightarrow>
          (let elem_count = drop_bit 16 elem_data AND 255;
               elem_size = drop_bit 8 elem_data AND 255;
               elem_type = elem_data AND 255;
               index_size = (if e = 0 then (if elem_type \<in> {10, 11} then 4 else elem_size)
                             else fst acc)
           in read_elements (Suc e) (pred_numeral k) (index_size, snd acc + elem_count * elem_size) s1))"
  by (simp only: numeral_eq_Suc read_elements.simps)

lemma swap_triangles_numeral:
  "swap_triangles w region_offset t (numeral k) d =
     (let offset = region_offset + t * (3 * w) in
      if offset + 3 * w > length d then Inr d
      else
        (case unpack_from3 w d offset of
           Inl err \<Rightarrow> Inl err
         | Inr (a, b, c) \<Rightarrow>
             (case pack_into3 w d offset (a, c, b) of
                Inl err \<Rightarrow> Inl err
              | Inr d' \<Rightarrow> swap_triangles w region_offset (Suc t) (pred_numeral k) d')))"
  by (simp only: numeral_eq_Suc swap_triangles.simps)

lemma meshes_loop_numeral:
  "meshes_loop index_str_idx i (numeral k) acc =
     (case acc of (processed_streams, printed, s) \<Rightarrow>
        (case list_get (object_types s) i of
           Inl err \<Rightarrow> Inl err
         | Inr t \<Rightarrow>
             if t \<noteq> lit ''NiMesh'' then meshes_loop index_str_idx (Suc i) (pred_numeral k) acc
             else
               (case find_index_streams_in_mesh s i index_str_idx of
                  Inl err \<Rightarrow> Inl err
                | Inr streams \<Rightarrow>
                    (case process_streams i streams acc of
                       Inl err \<Rightarrow> Inl err
                     | Inr acc' \<Rightarrow> meshes_loop index_str_idx (Suc i) (pred_numeral k) acc'))))"
  by (simp only: numeral_eq_Suc meshes_loop.simps)

lemmas loop_numerals =
  scan_for_numeral le_encode_numeral read_type_names_numeral
  read_object_types_numeral read_uints_numeral read_strings_numeral
  offsets_loop_numeral validate_descs_numeral find_link_numeral
  scan_back_numeral read_regions_numeral read_elements_numeral
  swap_triangles_numeral meshes_loop_numeral

text \<open>The steps of a run on \<open>sample_file st\<close>, whatever the stream object \<open>st\<close> is.\<close>

lemma sample_stage1:
  "parse_header (NifParser_init (sample_file st))
     = Inr (True, (NifParser_init (sample_file st))
                    \<lparr>pos := 34, file_ver := 335937536, num_objects := 2\<rparr>)"
  by (simp add: loop_numerals nif_version_eval parse_header_def NifParser_init_def sample_file_def sample_header_def
      bytes_find_def decode_ascii_def
      lit_def startswith_def read_uint_def read_byte_def read_int_def unpack_from_def Let_def)

lemma sample_stage3:
  "parse_type_names_and_indices
     ((NifParser_init (sample_file st))\<lparr>pos := 34, file_ver := 335937536, num_objects := 2\<rparr>)
     = Inr (True, (NifParser_init (sample_file st))
                    \<lparr>pos := 66, file_ver := 335937536, num_objects := 2,
                     type_names := [lit ''NiMesh'', lit ''NiDataStream''],
                     object_types := [lit ''NiMesh'', lit ''NiDataStream'']\<rparr>)"
  by (simp add: loop_numerals nif_version_eval parse_type_names_and_indices_def NifParser_init_def sample_file_def
      sample_header_def lit_def read_uint_def read_ushort_def read_string_def unpack_from_def
      rstrip_nul_def list_get_def cont_def Let_def cong: prod.case_cong_weak)

lemma sample_stage4:
  "parse_object_sizes
     ((NifParser_init (sample_file st))
        \<lparr>pos := 66, file_ver := 335937536, num_objects := 2,
         type_names := [lit ''NiMesh'', lit ''NiDataStream''],
         object_types := [lit ''NiMesh'', lit ''NiDataStream'']\<rparr>)
     = Inr (True, (NifParser_init (sample_file st))
        \<lparr>pos := 74, file_ver := 335937536, num_objects := 2,
         type_names := [lit ''NiMesh'', lit ''NiDataStream''],
         object_types := [lit ''NiMesh'', lit ''NiDataStream''],
         object_sizes := [21, unat (of_nat (length st) :: byte)]\<rparr>)"
  by (simp add: loop_numerals nif_version_eval parse_object_sizes_def NifParser_init_def sample_file_def
      sample_header_def read_uint_def unpack_from_def)

lemma sample_stage5:
  "parse_string_table
     ((NifParser_init (sample_file st))
        \<lparr>pos := 74, file_ver := 335937536, num_objects := 2,
         type_names := [lit ''NiMesh'', lit ''NiDataStream''],
         object_types := [lit ''NiMesh'', lit ''NiDataStream''],
         object_sizes := [21, unat (of_nat (length st) :: byte)]\<rparr>)
     = Inr (True, (NifParser_init (sample_file st))
        \<lparr>pos := 99, file_ver := 335937536, num_objects := 2,
         type_names := [lit ''NiMesh'', lit ''NiDataStream''],
         object_types := [lit ''NiMesh'', lit ''NiDataStream''],
         object_sizes := [21, unat (of_nat (length st) :: byte)],
         string_table := [[], [], lit ''INDEX'']\<rparr>)"
  by (simp add: loop_numerals nif_version_eval parse_string_table_def NifParser_init_def sample_file_def
      sample_header_def lit_def read_uint_def read_string_def unpack_from_def
      rstrip_nul_def Let_def cong: prod.case_cong_weak)

lemma sample_stage6:
  "parse_object_groups
     ((NifParser_init (sample_file st))
        \<lparr>pos := 99, file_ver := 335937536, num_objects := 2,
         type_names := [lit ''NiMesh'', lit ''NiDataStream''],
         object_types := [lit ''NiMesh'', lit ''NiDataStream''],
         object_sizes := [21, unat (of_nat (length st) :: byte)],
         string_table := [[], [], lit ''INDEX'']\<rparr>)
     = Inr (True, (sample_state st)\<lparr>object_offsets := []\<rparr>)"
  by (simp add: loop_numerals nif_version_eval parse_object_groups_def NifParser_init_def sample_state_def sample_file_def
      sample_header_def read_uint_def unpack_from_def)

lemma sample_stage7:
  "build_object_offsets ((sample_state st)\<lparr>object_offsets := []\<rparr>) = Inr (sample_state st)"
  by (simp add: loop_numerals build_object_offsets_def sample_state_def list_get_def)

lemma sample_locate:
  "find_index_streams_in_mesh (sample_state st) 0 2 = Inr [(1, 0)]"
  by (simp add: loop_numerals find_index_streams_in_mesh_def sample_state_def sample_file_def
      sample_header_def sample_mesh_def list_get_def pack_uint_def bytes_find_def
      unpack_from_def lit_def startswith_def Let_def cong: prod.case_cong_weak)

lemma sample_state_fields [simp]:
  "num_objects (sample_state st) = 2"
  "object_types (sample_state st) = [lit ''NiMesh'', lit ''NiDataStream'']"
  by (simp_all add: sample_state_def)

lemma sample_parse:
  "parse_and_fix (NifParser_init (sample_file st))
     = (case process_all_meshes (sample_state st) of
          Inl err \<Rightarrow> Inl err
        | Inr (printed, s8) \<Rightarrow> Inr (modified s8, s8))"
  by (simp add: nif_version_eval parse_and_fix_def sample_stage1 parse_metadata_def sample_stage3 sample_stage4
      sample_stage5 sample_stage6 sample_stage7)

lemma sample_index: "list_index (string_table (sample_state st)) (lit ''INDEX'') = Some 2"
  by (simp add: sample_state_def lit_def)

lemma sample_types: "lit ''NiDataStream'' \<noteq> lit ''NiMesh''"
  by (simp add: lit_def)

lemma sample_process:
  "process_all_meshes (sample_state st)
     = (case fix_datastream_winding (sample_state st) 1 of
          Inl err \<Rightarrow> Inl err
        | Inr s' \<Rightarrow> Inr ([(0, 1)], s'))"
proof (cases "fix_datastream_winding (sample_state st) 1")
  case (Inl e)
  then show ?thesis
    by (simp add: loop_numerals process_all_meshes_def sample_index sample_locate list_get_def sample_types)
next
  case (Inr s')
  from fix_datastream_winding_frame [OF Inr]
  have "object_types s' = [lit ''NiMesh'', lit ''NiDataStream'']"
    using static_part_eqD(2) [of s' "sample_state st"] by simp
  with Inr show ?thesis
    by (simp add: loop_numerals process_all_meshes_def sample_index sample_locate list_get_def sample_types)
qed

lemma sample_run:
  "fix_nif_file (sample_file st)
     = (case fix_datastream_winding (sample_state st) 1 of
          Inl err \<Rightarrow> Inl err
        | Inr s' \<Rightarrow> if modified s' then Inr (True, Some (data s')) else Inr (False, None))"
  by (simp add: fix_nif_file_def sample_parse sample_process split: sum.split)

lemmas patch_defs =
  loop_numerals
  fix_datastream_winding_def sample_state_def sample_file_def sample_header_def
  sample_mesh_def list_get_def read_uint_def unpack_from_def unpack_from3_def pack_into3_def
  Let_def

lemma ok_patch:
  "fix_datastream_winding (sample_state (ok_stream [1, 0, 2, 0, 3, 0])) 1
     = Inr ((sample_state (ok_stream [1, 0, 2, 0, 3, 0]))
              \<lparr>data := sample_file (ok_stream [1, 0, 3, 0, 2, 0]), pos := 152,
               modified := True\<rparr>)"
  by (simp add: patch_defs ok_stream_def cong: prod.case_cong_weak)

lemma ok_run:
  "fix_nif_file (sample_file (ok_stream [1, 0, 2, 0, 3, 0]))
     = Inr (True, Some (sample_file (ok_stream [1, 0, 3, 0, 2, 0])))"
  using ok_patch by (simp add: sample_run)

lemma short_patch:
  "fix_datastream_winding (sample_state short_stream) 1
     = Inr ((sample_state short_stream)\<lparr>pos := 152, modified := True\<rparr>)"
  by (simp add: patch_defs short_stream_def cong: prod.case_cong_weak)

lemma short_run:
  "fix_nif_file (sample_file short_stream) = Inr (True, Some (sample_file short_stream))"
  using short_patch by (simp add: sample_run sample_state_def)

lemma wide_patch:
  "fix_datastream_winding (sample_state (wide_stream [1, 0, 0, 0, 2, 0, 0, 0, 3, 0, 0, 0])) 1
     = Inr ((sample_state (wide_stream [1, 0, 0, 0, 2, 0, 0, 0, 3, 0, 0, 0]))
              \<lparr>data := sample_file (wide_stream [1, 0, 0, 0, 3, 0, 0, 0, 2, 0, 0, 0]),
               pos := 152, modified := True\<rparr>)"
  by (simp add: patch_defs wide_stream_def cong: prod.case_cong_weak)




text \<open>The other example files.\<close>

lemmas parse_defs =
  parse_tables_def parse_header_def parse_metadata_def parse_type_names_and_indices_def
  parse_object_sizes_def parse_string_table_def parse_object_groups_def NifParser_init_def
  bytes_find_def decode_ascii_def lit_def startswith_def read_uint_def read_byte_def
  read_int_def read_ushort_def read_string_def unpack_from_def rstrip_nul_def list_get_def
  cont_def Let_def loop_numerals nif_version_eval

lemma sample_tables:
  "parse_tables (NifParser_init (sample_file st))
     = Inr (True, (sample_state st)\<lparr>object_offsets := []\<rparr>)"
  by (simp add: nif_version_eval parse_tables_def sample_stage1 parse_metadata_def sample_stage3
      sample_stage4 sample_stage5 sample_stage6)

lemma plain_tables: "parse_tables (NifParser_init plain_file) = Inr (True, plain_state)"
  by (simp add: parse_defs plain_file_def plain_header_def plain_state_def
      cong: prod.case_cong_weak)

lemma plain_offsets:
  "build_object_offsets plain_state = Inr (plain_state\<lparr>object_offsets := [85, 95, 115]\<rparr>)"
  by (simp add: build_object_offsets_def plain_state_def list_get_def loop_numerals)

lemma old_header_parsed:
  "parse_header (NifParser_init old_file)
     = Inr (True, (NifParser_init old_file)\<lparr>pos := 34, file_ver := 335675396, num_objects := 2\<rparr>)"
  by (simp add: parse_defs old_file_def old_header_def cong: prod.case_cong_weak)

lemma old_tables:
  "parse_tables (NifParser_init old_file)
     = Inr (True, \<lparr>data = old_file, pos = 95, file_ver = 335675396, user_ver = 0,
                   num_objects = 2, type_names = [lit ''NiMesh'', lit ''NiDataStream''],
                   object_types = [lit ''NiMesh'', lit ''NiDataStream''], object_sizes = [],
                   object_offsets = [], string_table = [[], [], lit ''INDEX''],
                   modified = False\<rparr>)"
  by (simp add: parse_defs old_file_def old_header_def cong: prod.case_cong_weak)



lemma twin_tables:
  "parse_tables (NifParser_init (twin_file [1, 0, 2, 0, 3, 0]))
     = Inr (True, (twin_state (twin_file [1, 0, 2, 0, 3, 0]))\<lparr>object_offsets := []\<rparr>)"
  by (simp add: parse_defs twin_file_def twin_header_def twin_mesh_def ok_stream_def
      twin_state_def cong: prod.case_cong_weak)

lemma twin_offsets:
  "build_object_offsets ((twin_state d)\<lparr>object_offsets := []\<rparr>) = Inr (twin_state d)"
  by (simp add: build_object_offsets_def twin_state_def list_get_def loop_numerals)







lemma sample_stream_header:
  "list_get (object_offsets (sample_state (ok_stream [1, 0, 2, 0, 3, 0]))) 1 = Inr 124"
  "read_uint ((sample_state (ok_stream [1, 0, 2, 0, 3, 0]))\<lparr>pos := 124\<rparr>)
     = Inr (6, (sample_state (ok_stream [1, 0, 2, 0, 3, 0]))\<lparr>pos := 128\<rparr>)"
  "read_uint ((sample_state (ok_stream [1, 0, 2, 0, 3, 0]))\<lparr>pos := 128\<rparr>)
     = Inr (0, (sample_state (ok_stream [1, 0, 2, 0, 3, 0]))\<lparr>pos := 132\<rparr>)"
  "read_uint ((sample_state (ok_stream [1, 0, 2, 0, 3, 0]))\<lparr>pos := 132\<rparr>)
     = Inr (1, (sample_state (ok_stream [1, 0, 2, 0, 3, 0]))\<lparr>pos := 136\<rparr>)"
  "read_regions 1 ((sample_state (ok_stream [1, 0, 2, 0, 3, 0]))\<lparr>pos := 136\<rparr>)
     = Inr ([(0, 3)], (sample_state (ok_stream [1, 0, 2, 0, 3, 0]))\<lparr>pos := 144\<rparr>)"
  "read_uint ((sample_state (ok_stream [1, 0, 2, 0, 3, 0]))\<lparr>pos := 144\<rparr>)
     = Inr (1, (sample_state (ok_stream [1, 0, 2, 0, 3, 0]))\<lparr>pos := 148\<rparr>)"
  "length (sample_file (ok_stream [1, 0, 2, 0, 3, 0])) = 159"
  "le_decode (take 4 (drop 148 (sample_file (ok_stream [1, 0, 2, 0, 3, 0])))) = 66053"
  by (simp_all add: sample_state_def sample_file_def sample_header_def sample_mesh_def
      ok_stream_def list_get_def read_uint_def unpack_from_def)

text \<open>Whole runs and single loops on the example streams.\<close>

lemma sample_state_data: "data (sample_state st) = sample_file st"
  by (simp add: sample_state_def)




lemma wide_run:
  "fix_nif_file (sample_file (wide_stream [1, 0, 0, 0, 2, 0, 0, 0, 3, 0, 0, 0]))
     = Inr (True, Some (sample_file (wide_stream [1, 0, 0, 0, 3, 0, 0, 0, 2, 0, 0, 0])))"
  using wide_patch by (simp add: sample_run)


lemmas swap_defs =
  sample_file_def sample_header_def sample_mesh_def unpack_from3_def pack_into3_def Let_def
  loop_numerals


lemma wide_swaps:
  "swap_triangles 4 152 0 1 (sample_file (wide_stream [1, 0, 0, 0, 2, 0, 0, 0, 3, 0, 0, 0])) = Inr (sample_file (wide_stream [1, 0, 0, 0, 3, 0, 0, 0, 2, 0, 0, 0]))"
  "swap_triangles 2 152 0 1 (sample_file (wide_stream [1, 0, 0, 0, 2, 0, 0, 0, 3, 0, 0, 0])) = Inr (sample_file (wide_stream [1, 0, 2, 0, 0, 0, 0, 0, 3, 0, 0, 0]))"
  "unpack_from 4 (sample_file (wide_stream [1, 0, 0, 0, 2, 0, 0, 0, 3, 0, 0, 0])) 148 = Inr 66565"
  "sample_file (wide_stream [1, 0, 0, 0, 3, 0, 0, 0, 2, 0, 0, 0]) \<noteq> sample_file (wide_stream [1, 0, 2, 0, 0, 0, 0, 0, 3, 0, 0, 0])"
  by (simp_all add: swap_defs wide_stream_def unpack_from_def)

lemma short_regions:
  "patch_regions 2 2 152 [(0, 3)] (0, sample_file short_stream)
     = Inr (1, sample_file short_stream)"
  "length (sample_file short_stream) = 156"
  by (simp_all add: swap_defs short_stream_def)



lemma element_fields:
  "drop_bit 8 (66053::nat) AND 255 = 2" "(66053::nat) AND 255 = 5"
  "drop_bit 8 (66565::nat) AND 255 = 4" "(66565::nat) AND 255 = 5"
  by simp_all

section \<open>The claims\<close>

text \<open>
  Claim C1 (as amended).  When the stream header up to the element count has been read
  and the element descriptors fit the buffer, the width with which the patcher reads
  and rewrites the triangles is the size field of the first descriptor, or 4 when the
  type code of that descriptor is 10 or 11, and 2 only when there is no descriptor; the
  regions are patched with that width, and nothing is patched when it is neither 2 nor 4.
\<close>

theorem index_width_from_first_element:
  assumes "list_get (object_offsets s) k = Inr off"
    and "read_uint (s\<lparr>pos := off\<rparr>) = Inr (a1, s1)" and "read_uint s1 = Inr (a2, s2)"
    and "read_uint s2 = Inr (nr, s3)" and "read_regions nr s3 = Inr (regions, s4)"
    and "read_uint s4 = Inr (n, s5)" and "pos s5 + 4 * n \<le> length (data s5)"
  shows "\<exists>w st tot d'.
           read_elements 0 n (2, 0) s5 = Inr ((w, st), s5\<lparr>pos := pos s5 + 4 * n\<rparr>)
           \<and> w = (if n = 0 then 2
                  else let elem_data = le_decode (take 4 (drop (pos s5) (data s5)))
                       in if elem_data AND 255 \<in> {10, 11} then 4
                          else drop_bit 8 elem_data AND 255)
           \<and> patch_regions w st (pos s5 + 4 * n) regions (0, data s) = Inr (tot, d')
           \<and> fix_datastream_winding s k =
               Inr (if tot > 0 then s\<lparr>pos := pos s5 + 4 * n, data := d', modified := True\<rparr>
                    else s\<lparr>pos := pos s5 + 4 * n, data := d'\<rparr>)
           \<and> (w \<noteq> 2 \<and> w \<noteq> 4 \<longrightarrow> tot = 0 \<and> d' = data s)"
proof -
  from read_regions_frame [OF assms(5)] obtain p4 where "s4 = s3\<lparr>pos := p4\<rparr>" by blast
  with read_uint_Inr [OF assms(2)] read_uint_Inr [OF assms(3)] read_uint_Inr [OF assms(4)]
    read_uint_Inr [OF assms(6)]
  have s5: "s5 = s\<lparr>pos := pos s5\<rparr>" by simp
  from read_elements_total [OF assms(7), of 0 "(2, 0)"] obtain r where
    re: "read_elements 0 n (2, 0) s5 = Inr (r, s5\<lparr>pos := pos s5 + 4 * n\<rparr>)"
    and w: "fst r = (if 0 < n
                    then (let elem_data = le_decode (take 4 (drop (pos s5) (data s5)))
                          in if elem_data AND 255 \<in> {10, 11} then 4
                             else drop_bit 8 elem_data AND 255)
                    else 2)"
    by auto
  obtain w st where r: "r = (w, st)" by (cases r)
  from patch_regions_total [of w st "pos s5 + 4 * n" regions 0 "data s"] obtain tot d' where
    p: "patch_regions w st (pos s5 + 4 * n) regions (0, data s) = Inr (tot, d')" by blast
  have d5: "data s5 = data s" by (subst s5) simp
  have run: "fix_datastream_winding s k =
               Inr (if tot > 0 then s\<lparr>pos := pos s5 + 4 * n, data := d', modified := True\<rparr>
                    else s\<lparr>pos := pos s5 + 4 * n, data := d'\<rparr>)"
  proof -
    have "s5\<lparr>pos := pos s5 + 4 * n\<rparr> = s\<lparr>pos := pos s5 + 4 * n\<rparr>"
      by (subst s5) simp
    with assms(1-6) re r p d5 show ?thesis
      by (simp add: fix_datastream_winding_def)
  qed
  have other: "w \<noteq> 2 \<and> w \<noteq> 4 \<longrightarrow> tot = 0 \<and> d' = data s"
  proof
    assume "w \<noteq> 2 \<and> w \<noteq> 4"
    then have "patch_regions w st (pos s5 + 4 * n) regions (0, data s) = Inr (0, data s)"
      by (simp add: patch_regions_other_width)
    with p show "tot = 0 \<and> d' = data s" by simp
  qed
  have wv: "w = (if n = 0 then 2
                 else let elem_data = le_decode (take 4 (drop (pos s5) (data s5)))
                      in if elem_data AND 255 \<in> {10, 11} then 4
                         else drop_bit 8 elem_data AND 255)"
    using w r by (cases "n = 0") (simp_all add: Let_def)
  from re r
  have re': "read_elements 0 n (2, 0) s5 = Inr ((w, st), s5\<lparr>pos := pos s5 + 4 * n\<rparr>)"
    by simp
  from re' wv p run other show ?thesis by (intro exI conjI)
qed

text \<open>
  On the stream of \<open>sample_file (ok_stream \<dots>)\<close>, whose one descriptor has size 2 and
  type code 5, the width is 2.
\<close>

theorem index_width_from_first_element_witness:
  "list_get (object_offsets (sample_state (ok_stream [1, 0, 2, 0, 3, 0]))) 1 = Inr 124
   \<and> read_uint ((sample_state (ok_stream [1, 0, 2, 0, 3, 0]))\<lparr>pos := 144\<rparr>) = Inr (1, (sample_state (ok_stream [1, 0, 2, 0, 3, 0]))\<lparr>pos := 148\<rparr>)
   \<and> le_decode (take 4 (drop 148 (sample_file (ok_stream [1, 0, 2, 0, 3, 0])))) = 66053
   \<and> (\<exists>w st tot d'.
        read_elements 0 1 (2, 0) ((sample_state (ok_stream [1, 0, 2, 0, 3, 0]))\<lparr>pos := 148\<rparr>) = Inr ((w, st), (sample_state (ok_stream [1, 0, 2, 0, 3, 0]))\<lparr>pos := 152\<rparr>)
        \<and> w = 2
        \<and> patch_regions w st 152 [(0, 3)] (0, sample_file (ok_stream [1, 0, 2, 0, 3, 0])) = Inr (tot, d')
        \<and> fix_datastream_winding (sample_state (ok_stream [1, 0, 2, 0, 3, 0])) 1 =
            Inr (if tot > 0 then (sample_state (ok_stream [1, 0, 2, 0, 3, 0]))\<lparr>pos := 152, data := d', modified := True\<rparr>
                 else (sample_state (ok_stream [1, 0, 2, 0, 3, 0]))\<lparr>pos := 152, data := d'\<rparr>))"
proof -
  let ?s5 = "(sample_state (ok_stream [1, 0, 2, 0, 3, 0]))\<lparr>pos := 148\<rparr>"
  have fit: "pos ?s5 + 4 * 1 \<le> length (data ?s5)"
    by (simp add: sample_state_data sample_stream_header(7))
  have p5: "pos ?s5 + 4 * 1 = 152" by simp
  have s5: "?s5\<lparr>pos := 152\<rparr> = (sample_state (ok_stream [1, 0, 2, 0, 3, 0]))\<lparr>pos := 152\<rparr>" by simp
  from index_width_from_first_element
         [OF sample_stream_header(1) sample_stream_header(2) sample_stream_header(3)
             sample_stream_header(4) sample_stream_header(5) sample_stream_header(6) fit]
  obtain w st tot d' where
    re: "read_elements 0 1 (2, 0) ?s5 = Inr ((w, st), ?s5\<lparr>pos := pos ?s5 + 4 * 1\<rparr>)"
    and w: "w = (if (1::nat) = 0 then 2
                 else let elem_data = le_decode (take 4 (drop (pos ?s5) (data ?s5)))
                      in if elem_data AND 255 \<in> {10, 11} then 4
                         else drop_bit 8 elem_data AND 255)"
    and p: "patch_regions w st (pos ?s5 + 4 * 1) [(0, 3)] (0, data (sample_state (ok_stream [1, 0, 2, 0, 3, 0]))) = Inr (tot, d')"
    and f: "fix_datastream_winding (sample_state (ok_stream [1, 0, 2, 0, 3, 0])) 1 =
              Inr (if tot > 0
                   then (sample_state (ok_stream [1, 0, 2, 0, 3, 0]))\<lparr>pos := pos ?s5 + 4 * 1, data := d', modified := True\<rparr>
                   else (sample_state (ok_stream [1, 0, 2, 0, 3, 0]))\<lparr>pos := pos ?s5 + 4 * 1, data := d'\<rparr>)"
    by blast
  have w2: "w = 2"
    using w by (simp add: sample_state_data sample_stream_header(8) element_fields)
  from re have re': "read_elements 0 1 (2, 0) ?s5 = Inr ((w, st), (sample_state (ok_stream [1, 0, 2, 0, 3, 0]))\<lparr>pos := 152\<rparr>)"
    by (simp only: p5 s5)
  from p have p': "patch_regions w st 152 [(0, 3)] (0, sample_file (ok_stream [1, 0, 2, 0, 3, 0])) = Inr (tot, d')"
    by (simp only: p5 sample_state_data)
  from f have f': "fix_datastream_winding (sample_state (ok_stream [1, 0, 2, 0, 3, 0])) 1 =
                     Inr (if tot > 0 then (sample_state (ok_stream [1, 0, 2, 0, 3, 0]))\<lparr>pos := 152, data := d', modified := True\<rparr>
                          else (sample_state (ok_stream [1, 0, 2, 0, 3, 0]))\<lparr>pos := 152, data := d'\<rparr>)"
    by (simp only: p5)
  from re' w2 p' f'
  have "\<exists>w st tot d'.
          read_elements 0 1 (2, 0) ?s5 = Inr ((w, st), (sample_state (ok_stream [1, 0, 2, 0, 3, 0]))\<lparr>pos := 152\<rparr>)
          \<and> w = 2
          \<and> patch_regions w st 152 [(0, 3)] (0, sample_file (ok_stream [1, 0, 2, 0, 3, 0])) = Inr (tot, d')
          \<and> fix_datastream_winding (sample_state (ok_stream [1, 0, 2, 0, 3, 0])) 1 =
              Inr (if tot > 0 then (sample_state (ok_stream [1, 0, 2, 0, 3, 0]))\<lparr>pos := 152, data := d', modified := True\<rparr>
                   else (sample_state (ok_stream [1, 0, 2, 0, 3, 0]))\<lparr>pos := 152, data := d'\<rparr>)"
    by (intro exI conjI)
  with sample_stream_header(1) sample_stream_header(6) sample_stream_header(8)
  show ?thesis by (intro conjI)
qed

text \<open>
  The claim as it is written fails on \<open>sample_file (wide_stream \<dots>)\<close>: the first
  descriptor there is \<open>66565 = 0x010405\<close>, of size 4 and type code 5, and the run swaps
  the second and third 4-byte value of the payload, which is not what a 2-byte width
  would have written.
\<close>

theorem index_width_counterexample:
  "fix_nif_file (sample_file (wide_stream [1, 0, 0, 0, 2, 0, 0, 0, 3, 0, 0, 0]))
     = Inr (True, Some (sample_file (wide_stream [1, 0, 0, 0, 3, 0, 0, 0, 2, 0, 0, 0])))
   \<and> unpack_from 4 (sample_file (wide_stream [1, 0, 0, 0, 2, 0, 0, 0, 3, 0, 0, 0])) 148 = Inr 66565
   \<and> (66565::nat) AND 255 = 5 \<and> drop_bit 8 (66565::nat) AND 255 = 4
   \<and> swap_triangles 4 152 0 1 (sample_file (wide_stream [1, 0, 0, 0, 2, 0, 0, 0, 3, 0, 0, 0]))
       = Inr (sample_file (wide_stream [1, 0, 0, 0, 3, 0, 0, 0, 2, 0, 0, 0]))
   \<and> swap_triangles 2 152 0 1 (sample_file (wide_stream [1, 0, 0, 0, 2, 0, 0, 0, 3, 0, 0, 0]))
       = Inr (sample_file (wide_stream [1, 0, 2, 0, 0, 0, 0, 0, 3, 0, 0, 0]))
   \<and> sample_file (wide_stream [1, 0, 0, 0, 3, 0, 0, 0, 2, 0, 0, 0]) \<noteq> sample_file (wide_stream [1, 0, 2, 0, 0, 0, 0, 0, 3, 0, 0, 0])"
  using wide_run wide_swaps element_fields by (intro conjI)

text \<open>
  Claim C2.  A buffer whose header parses with a positive object count and a version
  below 20.2.0.5 never completes the run: \<^verbatim>\<open>parse_and_fix\<close> raises, and when the tables
  themselves are read without error the exception is the \<^verbatim>\<open>IndexError\<close> of
  \<^verbatim>\<open>self.object_sizes[i]\<close> in the offset loop.  The claim says that the run completes as
  a no-op.
\<close>

theorem old_version_raises:
  assumes "parse_header (NifParser_init d) = Inr (True, s1)"
    and "file_ver s1 < nif_version 20 2 0 5"
  shows "(\<exists>e. parse_and_fix (NifParser_init d) = Inl e \<and> fix_nif_file d = Inl e)
         \<and> (\<forall>s6. parse_tables (NifParser_init d) = Inr (True, s6) \<longrightarrow>
                fix_nif_file d = Inl IndexError)"
proof -
  have no_offsets: "build_object_offsets s6 = Inl IndexError"
    if "parse_tables (NifParser_init d) = Inr (True, s6)" for s6
  proof -
    from parse_tables_Inr [OF that] assms(1) have
      n6: "num_objects s6 = num_objects s1"
      and z6: "file_ver s1 < nif_version 20 2 0 5 \<longrightarrow> object_sizes s6 = object_sizes s1"
      by auto
    from parse_header_frame [OF assms(1)] have "object_sizes s1 = []" "0 < num_objects s1"
      by (simp_all add: NifParser_init_def)
    with n6 z6 assms(2) have "object_sizes s6 = []" "0 < num_objects s6" by simp_all
    then obtain n where "nat (num_objects s6) = Suc n" by (cases "nat (num_objects s6)") auto
    with \<open>object_sizes s6 = []\<close> show ?thesis
      by (simp add: build_object_offsets_def list_get_def)
  qed
  have "\<exists>e. parse_and_fix (NifParser_init d) = Inl e"
  proof (cases "parse_and_fix (NifParser_init d)")
    case (Inl e)
    then show ?thesis by simp
  next
    case (Inr r)
    obtain m s' where r: "r = (m, s')" by (cases r)
    from parse_and_fix_Inr [OF Inr [unfolded r]] assms(1) obtain s6 s7 where
      n6: "num_objects s6 = num_objects s1"
      and z6: "file_ver s1 < nif_version 20 2 0 5 \<longrightarrow> object_sizes s6 = object_sizes s1"
      and b: "build_object_offsets s6 = Inr s7"
      by auto
    from parse_header_frame [OF assms(1)] have "object_sizes s1 = []" "0 < num_objects s1"
      by (simp_all add: NifParser_init_def)
    with n6 z6 assms(2) have "object_sizes s6 = []" "0 < num_objects s6" by simp_all
    with build_object_offsets_sizes [OF b] show ?thesis by simp
  qed
  moreover have "fix_nif_file d = Inl IndexError"
    if "parse_tables (NifParser_init d) = Inr (True, s6)" for s6
    using that no_offsets [OF that] by (simp add: fix_nif_file_def parse_and_fix_tables)
  ultimately show ?thesis by (auto simp: fix_nif_file_def)
qed

text \<open>The file \<open>old_file\<close> of version 20.2.0.4 ends in \<^verbatim>\<open>IndexError\<close>.\<close>

theorem old_version_raises_witness:
  "parse_header (NifParser_init old_file)
     = Inr (True, (NifParser_init old_file)\<lparr>pos := 34, file_ver := 335675396, num_objects := 2\<rparr>)
   \<and> file_ver ((NifParser_init old_file)\<lparr>pos := 34, file_ver := 335675396, num_objects := 2\<rparr>)
       < nif_version 20 2 0 5
   \<and> fix_nif_file old_file = Inl IndexError"
proof -
  have v: "file_ver ((NifParser_init old_file)\<lparr>pos := 34, file_ver := 335675396,
                                                num_objects := 2\<rparr>) < nif_version 20 2 0 5"
    by (simp add: nif_version_eval)
  from old_version_raises [OF old_header_parsed v] old_tables
  have "fix_nif_file old_file = Inl IndexError" by blast
  with old_header_parsed v show ?thesis by (intro conjI)
qed




text \<open>
  Claim C4.  On \<open>sample_file short_stream\<close> the one region counts three indices, the
  buffer ends after the second, and no triangle is swapped; the region adds its one
  triangle to \<^verbatim>\<open>total_triangles\<close> all the same, the run reports the file as modified and
  writes back the bytes it read.  The claim says that such a run reports the buffer as
  unmodified.
\<close>

theorem truncated_region_counted:
  "fix_nif_file (sample_file short_stream) = Inr (True, Some (sample_file short_stream))
   \<and> patch_regions 2 2 152 [(0, 3)] (0, sample_file short_stream)
       = Inr (1, sample_file short_stream)
   \<and> length (sample_file short_stream) = 156"
  using short_run short_regions by (intro conjI)




text \<open>
  Claim C6.  When the tables of a buffer have been read and its string table has no
  entry \<^verbatim>\<open>INDEX\<close>, the run is the offset loop and nothing else: it returns \<^verbatim>\<open>False\<close> with
  the buffer and the flag as they were, and \<^verbatim>\<open>process_all_meshes\<close> returns at once; from
  version 20.2.0.5 on the offset loop cannot fail, and \<^verbatim>\<open>fix_nif_file\<close> reports no change
  and writes nothing.
\<close>

theorem no_index_no_change:
  assumes "parse_tables (NifParser_init d) = Inr (True, s6)"
    and "lit ''INDEX'' \<notin> set (string_table s6)"
  shows "parse_and_fix (NifParser_init d) =
           (case build_object_offsets s6 of Inl err \<Rightarrow> Inl err | Inr s7 \<Rightarrow> Inr (False, s7))
         \<and> (\<forall>s7. build_object_offsets s6 = Inr s7 \<longrightarrow>
                data s7 = d \<and> \<not> modified s7 \<and> process_all_meshes s7 = Inr ([], s7))
         \<and> (nif_version 20 2 0 5 \<le> file_ver s6 \<longrightarrow> fix_nif_file d = Inr (False, None))"
proof -
  from parse_tables_Inr [OF assms(1)] obtain s1 where
    h: "parse_header (NifParser_init d) = Inr (True, s1)"
    and d6: "data s6 = data s1" and m6: "modified s6 = modified s1" by blast
  from parse_header_frame [OF h] d6 m6 have s6: "data s6 = d" "\<not> modified s6"
    by (simp_all add: NifParser_init_def)
  have step: "data s7 = d \<and> \<not> modified s7 \<and> process_all_meshes s7 = Inr ([], s7)"
    if "build_object_offsets s6 = Inr s7" for s7
  proof -
    from build_object_offsets_frame [OF that] obtain offs where
      s7: "s7 = s6\<lparr>object_offsets := offs\<rparr>" by blast
    with assms(2) have "lit ''INDEX'' \<notin> set (string_table s7)" by simp
    from process_all_meshes_without_index [OF this] s7 s6 show ?thesis by simp
  qed
  have run: "parse_and_fix (NifParser_init d) =
               (case build_object_offsets s6 of Inl err \<Rightarrow> Inl err | Inr s7 \<Rightarrow> Inr (False, s7))"
  proof (cases "build_object_offsets s6")
    case (Inl e)
    with assms(1) show ?thesis by (simp add: parse_and_fix_tables)
  next
    case (Inr s7)
    with assms(1) step [OF Inr] show ?thesis by (simp add: parse_and_fix_tables)
  qed
  have "fix_nif_file d = Inr (False, None)" if "nif_version 20 2 0 5 \<le> file_ver s6"
  proof -
    from offsets_after_tables [OF assms(1) that] obtain offs where
      "build_object_offsets s6 = Inr (s6\<lparr>object_offsets := offs\<rparr>)" by blast
    with run show ?thesis by (simp add: fix_nif_file_def)
  qed
  with run step show ?thesis by blast
qed

text \<open>The file \<open>plain_file\<close>, whose string table is \<^verbatim>\<open>["Scene"]\<close>.\<close>

theorem no_index_no_change_witness:
  "parse_tables (NifParser_init plain_file) = Inr (True, plain_state)
   \<and> lit ''INDEX'' \<notin> set (string_table plain_state)
   \<and> parse_and_fix (NifParser_init plain_file)
       = Inr (False, plain_state\<lparr>object_offsets := [85, 95, 115]\<rparr>)
   \<and> data (plain_state\<lparr>object_offsets := [85, 95, 115]\<rparr>) = plain_file
   \<and> fix_nif_file plain_file = Inr (False, None)"
proof -
  have n: "lit ''INDEX'' \<notin> set (string_table plain_state)"
    by (simp add: plain_state_def lit_def)
  have v: "nif_version 20 2 0 5 \<le> file_ver plain_state"
    by (simp add: plain_state_def nif_version_eval)
  have d: "data (plain_state\<lparr>object_offsets := [85, 95, 115]\<rparr>) = plain_file"
    by (simp add: plain_state_def)
  from no_index_no_change [OF plain_tables n] plain_offsets v
  have "parse_and_fix (NifParser_init plain_file)
          = Inr (False, plain_state\<lparr>object_offsets := [85, 95, 115]\<rparr>)"
    and "fix_nif_file plain_file = Inr (False, None)" by simp_all
  with plain_tables n d show ?thesis by (intro conjI)
qed






text \<open>
  Claim C9.  For a buffer whose tables have been read, of version 20.2.0.5 or later
  (the versions that carry the size list): the offset loop does not fail; it gives one
  offset for each object, the first being the position of the cursor after the last
  table and every other the one before plus the size of the object before; and
  \<^verbatim>\<open>parse_and_fix\<close> goes on with exactly these offsets, which \<^verbatim>\<open>process_all_meshes\<close>
  does not change.
\<close>

theorem object_offsets_accumulate:
  assumes "parse_tables s0 = Inr (True, s6)" and "nif_version 20 2 0 5 \<le> file_ver s6"
  shows "\<exists>offs. build_object_offsets s6 = Inr (s6\<lparr>object_offsets := offs\<rparr>)
           \<and> length offs = nat (num_objects s6) \<and> 0 < num_objects s6 \<and> offs ! 0 = pos s6
           \<and> (\<forall>i. Suc i < nat (num_objects s6) \<longrightarrow>
                  offs ! Suc i = offs ! i + object_sizes s6 ! i)
           \<and> parse_and_fix s0 =
               (case process_all_meshes (s6\<lparr>object_offsets := offs\<rparr>) of
                  Inl err \<Rightarrow> Inl err
                | Inr (printed, s8) \<Rightarrow> Inr (modified s8, s8))
           \<and> (\<forall>m s'. parse_and_fix s0 = Inr (m, s') \<longrightarrow>
                  object_offsets s' = offs \<and> object_sizes s' = object_sizes s6)"
proof -
  from offsets_after_tables [OF assms] obtain offs where
    b: "build_object_offsets s6 = Inr (s6\<lparr>object_offsets := offs\<rparr>)"
    and rest: "length offs = nat (num_objects s6)" "0 < num_objects s6" "offs ! 0 = pos s6"
      "\<forall>i. Suc i < nat (num_objects s6) \<longrightarrow> offs ! Suc i = offs ! i + object_sizes s6 ! i"
    by blast
  let ?s7 = "s6\<lparr>object_offsets := offs\<rparr>"
  have run: "parse_and_fix s0 =
               (case process_all_meshes ?s7 of
                  Inl err \<Rightarrow> Inl err
                | Inr (printed, s8) \<Rightarrow> Inr (modified s8, s8))"
    using assms(1) b by (simp add: parse_and_fix_tables)
  have "object_offsets s' = offs \<and> object_sizes s' = object_sizes s6"
    if "parse_and_fix s0 = Inr (m, s')" for m s'
  proof -
    from that run obtain printed where p: "process_all_meshes ?s7 = Inr (printed, s')"
      by (auto simp: sum_bind_Inr)
    from process_all_meshes_frame [OF p] have "static_part s' = static_part ?s7" by simp
    from static_part_eqD(4,5) [OF this] show ?thesis by simp
  qed
  with b rest run show ?thesis by blast
qed

text \<open>
  The file \<open>plain_file\<close> with the declared sizes 10, 20 and 15: the tables end at
  position 85, and the offsets are 85, 95 and 115.
\<close>

theorem object_offsets_accumulate_witness:
  "parse_tables (NifParser_init plain_file) = Inr (True, plain_state)
   \<and> nif_version 20 2 0 5 \<le> file_ver plain_state
   \<and> pos plain_state = 85 \<and> object_sizes plain_state = [10, 20, 15]
   \<and> build_object_offsets plain_state
       = Inr (plain_state\<lparr>object_offsets := [85, 85 + 10, 85 + 10 + 20]\<rparr>)
   \<and> parse_and_fix (NifParser_init plain_file)
       = Inr (False, plain_state\<lparr>object_offsets := [85, 85 + 10, 85 + 10 + 20]\<rparr>)"
proof -
  have v: "nif_version 20 2 0 5 \<le> file_ver plain_state"
    by (simp add: plain_state_def nif_version_eval)
  have f: "pos plain_state = 85" "object_sizes plain_state = [10, 20, 15]"
    "\<not> modified plain_state"
    by (simp_all add: plain_state_def)
  from object_offsets_accumulate [OF plain_tables v] obtain offs where
    b: "build_object_offsets plain_state = Inr (plain_state\<lparr>object_offsets := offs\<rparr>)"
    and run: "parse_and_fix (NifParser_init plain_file) =
                (case process_all_meshes (plain_state\<lparr>object_offsets := offs\<rparr>) of
                   Inl err \<Rightarrow> Inl err
                 | Inr (printed, s8) \<Rightarrow> Inr (modified s8, s8))"
    by blast
  from b plain_offsets
  have "object_offsets (plain_state\<lparr>object_offsets := offs\<rparr>)
          = object_offsets (plain_state\<lparr>object_offsets := [85, 95, 115]\<rparr>)" by simp
  then have offs: "offs = [85, 95, 115]" by simp
  have "process_all_meshes (plain_state\<lparr>object_offsets := [85, 95, 115]\<rparr>)
          = Inr ([], plain_state\<lparr>object_offsets := [85, 95, 115]\<rparr>)"
    by (rule process_all_meshes_without_index) (simp add: plain_state_def lit_def)
  with run offs f(3)
  have "parse_and_fix (NifParser_init plain_file)
          = Inr (False, plain_state\<lparr>object_offsets := [85, 95, 115]\<rparr>)" by simp
  with plain_tables v f(1,2) plain_offsets show ?thesis by simp
qed

text \<open>
  Claim C10.  The triangle loop and the region loop never raise and give back a buffer
  of the length they were given; so does every call of the patcher that returns, every
  run that returns, and what \<^verbatim>\<open>fix_nif_file\<close> writes has the length of what it read.
\<close>

theorem length_preserved:
  "(\<exists>d'. swap_triangles w ro t n d = Inr d' \<and> length d' = length d)
   \<and> (\<exists>tot' d'. patch_regions w st ds rs (tot, d) = Inr (tot', d') \<and> length d' = length d)
   \<and> (\<forall>s'. fix_datastream_winding s k = Inr s' \<longrightarrow> length (data s') = length (data s))
   \<and> (\<forall>m s'. parse_and_fix (NifParser_init x) = Inr (m, s') \<longrightarrow> length (data s') = length x)
   \<and> (\<forall>out. fix_nif_file x = Inr (True, Some out) \<longrightarrow> length out = length x)"
proof -
  have run: "length (data s') = length x" if "parse_and_fix (NifParser_init x) = Inr (m, s')"
    for m s'
    using parse_and_fix_Inr [OF that]
  proof (elim disjE exE conjE)
    fix s1
    assume "parse_header (NifParser_init x) = Inr (False, s1)" and "s' = s1"
    with parse_header_frame [of "NifParser_init x" False s1] show ?thesis
      by (simp add: NifParser_init_def)
  next
    fix s1 s6 s7 printed
    assume h: "parse_header (NifParser_init x) = Inr (True, s1)" and d6: "data s6 = data s1"
      and b: "build_object_offsets s6 = Inr s7"
      and p: "process_all_meshes s7 = Inr (printed, s')"
    from build_object_offsets_frame [OF b] have "data s7 = data s6" by auto
    with parse_header_frame [OF h] d6 process_all_meshes_frame [OF p] show ?thesis
      by (simp add: NifParser_init_def)
  qed
  have out: "length out = length x" if "fix_nif_file x = Inr (True, Some out)" for out
  proof -
    from that obtain m s' where "parse_and_fix (NifParser_init x) = Inr (m, s')" "out = data s'"
      by (auto simp: fix_nif_file_def sum_bind_Inr if_eq_Inr)
    with run show ?thesis by simp
  qed
  from swap_triangles_total patch_regions_total fix_datastream_winding_frame run out
  show ?thesis by blast
qed

text \<open>The run on \<open>sample_file (ok_stream \<dots>)\<close>, which rewrites four bytes.\<close>

theorem length_preserved_witness:
  "fix_nif_file (sample_file (ok_stream [1, 0, 2, 0, 3, 0])) = Inr (True, Some (sample_file (ok_stream [1, 0, 3, 0, 2, 0])))
   \<and> length (sample_file (ok_stream [1, 0, 3, 0, 2, 0])) = length (sample_file (ok_stream [1, 0, 2, 0, 3, 0]))"
proof -
  note T = length_preserved
             [where w = 2 and ro = 0 and t = 0 and n = 0 and d = "[]" and st = 0 and ds = 0
                and rs = "[]" and tot = 0 and s = "NifParser_init []" and k = 0
                and x = "sample_file (ok_stream [1, 0, 2, 0, 3, 0])"]
  from T ok_run have "length (sample_file (ok_stream [1, 0, 3, 0, 2, 0])) = length (sample_file (ok_stream [1, 0, 2, 0, 3, 0]))" by blast
  with ok_run show ?thesis by (intro conjI)
qed

end
